theory Spec2Isabelle
  imports Complex_Main
begin

section \<open>The benchmark harness of the multi-adapter hosting notebook\<close>

text \<open>
  The harness is the last code cell of
  \<^verbatim>\<open>multi_adapter_hosting_sagemaker.ipynb\<close>: module-level configuration, the worker
  function \<^verbatim>\<open>invoke_adapter\<close> and the driver \<^verbatim>\<open>benchmark_scenario\<close>.
  Python integers are \<open>int\<close>. Time stamps and latencies are Python floats: a float is
  taken as the real number it denotes, and the arithmetic the driver does on floats is
  kept as the expression it evaluates, since every float operation rounds.
\<close>

subsection \<open>Module-level state\<close>

datatype py_error = ZeroDivisionError

text \<open>The two module-level variables the workers mutate.\<close>

record globals =
  total_requests :: int
  adapter_counters :: "int list"

text \<open>
  \<^verbatim>\<open>adapter_counters = [total_requests // num_adapters] * num_adapters\<close>.
  Floor division by zero raises; repeating a list a negative number of times gives
  the empty list. Python's \<^verbatim>\<open>//\<close> on integers rounds down, as \<open>div\<close> on \<open>int\<close> does.
\<close>

definition initial_globals :: "int \<Rightarrow> int \<Rightarrow> py_error + globals" where
  "initial_globals total_requests0 num_adapters =
     (if num_adapters = 0 then Inl ZeroDivisionError
      else Inr \<lparr>total_requests = total_requests0,
                adapter_counters =
                  replicate (nat num_adapters) (total_requests0 div num_adapters)\<rparr>)"

subsection \<open>The block under the lock\<close>

text \<open>
  \<^verbatim>\<open>[i for i, count in enumerate(adapter_counters) if count > 0]\<close>
\<close>

definition remaining_adapters :: "int list \<Rightarrow> nat list" where
  "remaining_adapters cs = map fst (filter (\<lambda>(i, count). count > 0) (enumerate 0 cs))"

text \<open>
  \<^verbatim>\<open>random.choice(seq)\<close> on a non-empty sequence returns one of its elements; which
  one is decided by the random source, here a natural number \<open>r\<close> supplied from
  outside. Every element can be chosen.
\<close>

definition random_choice :: "nat \<Rightarrow> 'a list \<Rightarrow> 'a" where
  "random_choice r seq = seq ! (r mod length seq)"

text \<open>
  The body of \<^verbatim>\<open>with counters_lock:\<close> in \<^verbatim>\<open>invoke_adapter\<close>. The result is
  \<open>None\<close> for \<^verbatim>\<open>break\<close> and \<open>Some adapter_id\<close> when the block falls through to the
  request. The index \<^verbatim>\<open>adapter_id - 1\<close> comes from \<open>remaining_adapters\<close>, so it is
  within the list.
\<close>

definition invoke_adapter_claim :: "bool \<Rightarrow> nat \<Rightarrow> globals \<Rightarrow> int option \<times> globals" where
  "invoke_adapter_claim single_adapter r g =
     (if single_adapter then
        (if total_requests g > 0
         then (Some 1, g\<lparr>total_requests := total_requests g - 1\<rparr>)
         else (None, g))
      else
        (let remaining = remaining_adapters (adapter_counters g) in
         if remaining = [] then (None, g)
         else
           (let adapter_id = int (random_choice r remaining) + 1;
                k = nat (adapter_id - 1)
            in (Some adapter_id,
                g\<lparr>adapter_counters :=
                    (adapter_counters g)[k := adapter_counters g ! k - 1]\<rparr>))))"

subsection \<open>Workers, the lock and the interleaving of threads\<close>

text \<open>
  Where a worker thread stands in \<^verbatim>\<open>invoke_adapter\<close>:
  at the top of the loop waiting for the lock, inside the \<^verbatim>\<open>with\<close> block, inside
  \<^verbatim>\<open>lorax_predictor.predict\<close> for an adapter, returned from the function, or killed
  by an exception that \<^verbatim>\<open>predict\<close> raised (the function has no handler).
\<close>

datatype wpc = AtLoop | InLock | InFlight int | Done | Crashed

text \<open>
  A worker's local list \<^verbatim>\<open>latencies\<close> and the list \<^verbatim>\<open>aggregate_latency\<close> it was
  given, which is the worker's entry of \<^verbatim>\<open>all_latencies\<close> in the driver.
\<close>

record worker =
  pc :: wpc
  latencies :: "real list"
  aggregate_latency :: "real list"

text \<open>
  The state of one run of \<^verbatim>\<open>benchmark_scenario\<close>: the module globals, the holder of
  \<^verbatim>\<open>counters_lock\<close>, the threads started so far, and a history of the claims that
  fell through to a request (thread, adapter id). The history is not a variable of
  the program; it records what happened so that claims can be counted.
\<close>

record sys =
  glob :: globals
  counters_lock :: "nat option"
  workers :: "worker list"
  claim_log :: "(nat \<times> int) list"

text \<open>
  What can happen next:
  the driver starts the next thread; a thread at the top of its loop takes the free
  lock; the thread in the block runs it (with the random source's value), leaves the
  block and either returns from the function or issues its request; a request in
  flight returns (with a response that reports success or not, after a measured
  latency) or raises.
\<close>

datatype event =
  Spawn
  | Acquire nat
  | Claim nat nat
  | Return nat bool real
  | Raise nat

fun in_flight :: "wpc \<Rightarrow> bool" where
  "in_flight (InFlight adapter_id) = True"
| "in_flight _ = False"

definition set_worker :: "nat \<Rightarrow> worker \<Rightarrow> sys \<Rightarrow> sys" where
  "set_worker i w s = s\<lparr>workers := (workers s)[i := w]\<rparr>"

fun step :: "bool \<Rightarrow> int \<Rightarrow> event \<Rightarrow> sys \<Rightarrow> sys option" where
  "step single_adapter num_threads Spawn s =
     (if int (length (workers s)) < num_threads
      then Some (s\<lparr>workers := workers s @
                     [\<lparr>pc = AtLoop, latencies = [], aggregate_latency = []\<rparr>]\<rparr>)
      else None)"
| "step single_adapter num_threads (Acquire i) s =
     (if i < length (workers s) \<and> pc (workers s ! i) = AtLoop \<and> counters_lock s = None
      then Some (set_worker i ((workers s ! i)\<lparr>pc := InLock\<rparr>) (s\<lparr>counters_lock := Some i\<rparr>))
      else None)"
| "step single_adapter num_threads (Claim i r) s =
     (if i < length (workers s) \<and> pc (workers s ! i) = InLock
      then
        (let w = workers s ! i in
         case invoke_adapter_claim single_adapter r (glob s) of
           (None, g) \<Rightarrow>
             Some (set_worker i
                     (w\<lparr>pc := Done, aggregate_latency := aggregate_latency w @ latencies w\<rparr>)
                     (s\<lparr>glob := g, counters_lock := None\<rparr>))
         | (Some adapter_id, g) \<Rightarrow>
             Some (set_worker i (w\<lparr>pc := InFlight adapter_id\<rparr>)
                     (s\<lparr>glob := g, counters_lock := None,
                        claim_log := claim_log s @ [(i, adapter_id)]\<rparr>)))
      else None)"
| "step single_adapter num_threads (Return i ok latency) s =
     (if i < length (workers s) \<and> in_flight (pc (workers s ! i))
      then (let w = workers s ! i in
            Some (set_worker i (w\<lparr>pc := AtLoop, latencies := latencies w @ [latency]\<rparr>) s))
      else None)"
| "step single_adapter num_threads (Raise i) s =
     (if i < length (workers s) \<and> in_flight (pc (workers s ! i))
      then Some (set_worker i ((workers s ! i)\<lparr>pc := Crashed\<rparr>) s)
      else None)"

text \<open>An execution is a list of events, each enabled in the state the previous ones left.\<close>

fun exec :: "bool \<Rightarrow> int \<Rightarrow> event list \<Rightarrow> sys \<Rightarrow> sys option" where
  "exec single_adapter num_threads [] s = Some s"
| "exec single_adapter num_threads (e # es) s =
     (case step single_adapter num_threads e s of
        None \<Rightarrow> None
      | Some s' \<Rightarrow> exec single_adapter num_threads es s')"

text \<open>A run starts with no thread, the lock free and an empty history.\<close>

definition start_run :: "globals \<Rightarrow> sys" where
  "start_run g = \<lparr>glob = g, counters_lock = None, workers = [], claim_log = []\<rparr>"

definition terminated :: "worker \<Rightarrow> bool" where
  "terminated w = (pc w = Done \<or> pc w = Crashed)"

text \<open>
  The driver gets past its two loops when \<^verbatim>\<open>range(num_threads)\<close> is used up and
  every thread it joins has ended.
\<close>

definition finished :: "int \<Rightarrow> sys \<Rightarrow> bool" where
  "finished num_threads s =
     (\<not> int (length (workers s)) < num_threads \<and> list_all terminated (workers s))"

definition all_latencies :: "sys \<Rightarrow> real list list" where
  "all_latencies s = map aggregate_latency (workers s)"

subsection \<open>The driver's report\<close>

text \<open>
  The driver adds and divides floats, and each such operation rounds its result, so
  its outcome is not the outcome of the same operation on real numbers and depends on
  the order and grouping of the operations. The report is therefore modelled as the
  expressions the driver evaluates: the operands are the measured floats and the
  integers the code supplies, the operations stay uninterpreted.
\<close>

datatype fexpr =
  IntVal int
  | Val real
  | Add fexpr fexpr
  | Sub fexpr fexpr
  | Div fexpr fexpr

text \<open>
  \<^verbatim>\<open>sum(xs)\<close> starts from the integer \<^verbatim>\<open>0\<close> and adds the elements from left to right
  (the notebook's kernel is Python 3.10).
\<close>

definition py_sum :: "fexpr list \<Rightarrow> fexpr" where
  "py_sum xs = foldl Add (IntVal 0) xs"

text \<open>
  The three printed values, with the two locals they are computed from.
  \<^verbatim>\<open>time.time()\<close> is read when the function starts, again for the throughput and
  again for the printed total time; the three readings are inputs.
  \<^verbatim>\<open>total_requests_made\<close> is a sum of list lengths, an integer.
  Both divisions raise on a zero divisor; the difference of two floats is zero
  exactly when they are equal.
\<close>

record benchmark_result =
  total_latency :: fexpr
  total_requests_made :: int
  average_latency :: fexpr
  throughput :: fexpr
  total_time :: fexpr

definition report :: "real \<Rightarrow> real \<Rightarrow> real \<Rightarrow> real list list \<Rightarrow> py_error + benchmark_result" where
  "report start_time now_throughput now_print lats =
     (let total_latency' = py_sum (map (\<lambda>ls. py_sum (map Val ls)) lats);
          total_requests_made' = int (sum_list (map length lats))
      in if total_requests_made' = 0 then Inl ZeroDivisionError
         else if now_throughput = start_time then Inl ZeroDivisionError
         else Inr \<lparr>total_latency = total_latency',
                   total_requests_made = total_requests_made',
                   average_latency = Div total_latency' (IntVal total_requests_made'),
                   throughput =
                     Div (IntVal total_requests_made')
                         (Sub (Val now_throughput) (Val start_time)),
                   total_time = Sub (Val now_print) (Val start_time)\<rparr>)"

text \<open>
  \<^verbatim>\<open>benchmark_scenario\<close> along one execution: \<open>None\<close> when the event list is not a
  complete execution of the run, otherwise the globals it leaves and what it reports.
\<close>

definition benchmark_scenario ::
  "bool \<Rightarrow> int \<Rightarrow> real \<Rightarrow> real \<Rightarrow> real \<Rightarrow> event list \<Rightarrow> globals
     \<Rightarrow> (globals \<times> (py_error + benchmark_result)) option" where
  "benchmark_scenario single_adapter num_threads start_time now_throughput now_print es g =
     (case exec single_adapter num_threads es (start_run g) of
        None \<Rightarrow> None
      | Some s \<Rightarrow>
          if finished num_threads s
          then Some (glob s, report start_time now_throughput now_print (all_latencies s))
          else None)"

subsection \<open>Quantities the properties are stated in\<close>

text \<open>
  The number an expression of the report stands for when no operation rounds. The
  float the code prints is this number up to the rounding of each operation.
\<close>

fun exact_value :: "fexpr \<Rightarrow> real" where
  "exact_value (IntVal n) = real_of_int n"
| "exact_value (Val x) = x"
| "exact_value (Add a b) = exact_value a + exact_value b"
| "exact_value (Sub a b) = exact_value a - exact_value b"
| "exact_value (Div a b) = exact_value a / exact_value b"

text \<open>No remaining count is negative: the global counter and every per-adapter counter.\<close>

definition nonneg :: "globals \<Rightarrow> bool" where
  "nonneg g = (0 \<le> total_requests g \<and> list_all (\<lambda>c. 0 \<le> c) (adapter_counters g))"

definition remaining_sum :: "globals \<Rightarrow> int" where
  "remaining_sum g = total_requests g + sum_list (adapter_counters g)"

text \<open>Every count of the pool a mode draws from is zero.\<close>

definition pool_zero :: "bool \<Rightarrow> globals \<Rightarrow> bool" where
  "pool_zero single_adapter g =
     (if single_adapter then total_requests g = 0
      else list_all (\<lambda>c. c = 0) (adapter_counters g))"

text \<open>How often an adapter id was claimed, and the measurements the driver sees.\<close>

definition claims_of :: "int \<Rightarrow> (nat \<times> int) list \<Rightarrow> nat" where
  "claims_of adapter_id entries = length (filter (\<lambda>(i, a). a = adapter_id) entries)"

definition total_measurements :: "sys \<Rightarrow> nat" where
  "total_measurements s = sum_list (map length (all_latencies s))"

definition no_crash :: "sys \<Rightarrow> bool" where
  "no_crash s = list_all (\<lambda>w. pc w \<noteq> Crashed) (workers s)"

text \<open>
  The lock and the threads agree: the holder is a started thread, a thread is inside
  the block exactly when it is the holder, and so no thread with a request in flight
  holds the lock.
\<close>

definition lock_inv :: "sys \<Rightarrow> bool" where
  "lock_inv s =
     ((\<forall>i. counters_lock s = Some i \<longrightarrow> i < length (workers s)) \<and>
      (\<forall>i < length (workers s).
         (pc (workers s ! i) = InLock) = (counters_lock s = Some i)))"

text \<open>
  The claims a worker has taken: one per recorded latency, and one more for the
  request in flight or the request that killed it.
\<close>

fun pending :: "wpc \<Rightarrow> nat" where
  "pending (InFlight adapter_id) = 1"
| "pending Crashed = 1"
| "pending _ = 0"

definition claimed_by :: "worker \<Rightarrow> nat" where
  "claimed_by w = length (latencies w) + pending (pc w)"

definition published :: "worker \<Rightarrow> bool" where
  "published w = (aggregate_latency w = (if pc w = Done then latencies w else []))"

definition acct_inv :: "sys \<Rightarrow> bool" where
  "acct_inv s =
     (sum_list (map claimed_by (workers s)) = length (claim_log s) \<and>
      list_all published (workers s))"

text \<open>The claims a mode can still hand out, and a bound on the events still to come.\<close>

definition remaining :: "bool \<Rightarrow> globals \<Rightarrow> nat" where
  "remaining single_adapter g =
     (if single_adapter then nat (total_requests g)
      else sum_list (map nat (adapter_counters g)))"

fun weight :: "wpc \<Rightarrow> nat" where
  "weight AtLoop = 2"
| "weight InLock = 1"
| "weight (InFlight adapter_id) = 3"
| "weight Done = 0"
| "weight Crashed = 0"

definition potential :: "bool \<Rightarrow> int \<Rightarrow> sys \<Rightarrow> nat" where
  "potential single_adapter num_threads s =
     3 * remaining single_adapter (glob s)
     + 3 * (nat num_threads - length (workers s))
     + sum_list (map (\<lambda>w. weight (pc w)) (workers s))"

text \<open>A claim fails in this state: the pool of the mode is used up.\<close>

definition exhausted :: "bool \<Rightarrow> globals \<Rightarrow> bool" where
  "exhausted single_adapter g =
     (if single_adapter then total_requests g \<le> 0
      else list_all (\<lambda>c. c \<le> 0) (adapter_counters g))"

text \<open>
  Bookkeeping of a multi-adapter run that started from globals \<open>g\<close>: the global
  counter is untouched, the list keeps its length, each adapter id was claimed as
  often as its counter went down, and the claims add up to what the counters lost.
\<close>

definition multi_inv :: "globals \<Rightarrow> sys \<Rightarrow> bool" where
  "multi_inv g t =
     (total_requests (glob t) = total_requests g \<and>
      length (adapter_counters (glob t)) = length (adapter_counters g) \<and>
      (\<forall>a. int (claims_of a (claim_log t)) =
            (if 1 \<le> a \<and> a \<le> int (length (adapter_counters g))
             then adapter_counters g ! nat (a - 1) - adapter_counters (glob t) ! nat (a - 1)
             else 0)) \<and>
      sum_list (adapter_counters (glob t)) + int (length (claim_log t)) =
        sum_list (adapter_counters g))"

section \<open>The block under the lock: basic facts\<close>

lemma set_remaining_adapters:
  "set (remaining_adapters cs) = {i. i < length cs \<and> cs ! i > 0}"
proof (intro set_eqI iffI)
  fix i assume "i \<in> set (remaining_adapters cs)"
  then show "i \<in> {i. i < length cs \<and> cs ! i > 0}"
    by (auto simp: remaining_adapters_def in_set_enumerate_eq)
next
  fix i assume "i \<in> {i. i < length cs \<and> cs ! i > 0}"
  then have "(i, cs ! i) \<in> set (filter (\<lambda>(i, count). count > 0) (enumerate 0 cs))"
    by (simp add: in_set_enumerate_eq)
  then have "fst (i, cs ! i) \<in> set (remaining_adapters cs)"
    unfolding remaining_adapters_def set_map by (rule imageI)
  then show "i \<in> set (remaining_adapters cs)" by simp
qed

lemma remaining_adapters_Nil: "(remaining_adapters cs = []) = (\<forall>c\<in>set cs. c \<le> 0)"
proof -
  have "(remaining_adapters cs = []) = (set (remaining_adapters cs) = {})" by simp
  also have "\<dots> = (\<forall>i<length cs. cs ! i \<le> 0)"
    unfolding set_remaining_adapters Collect_empty_eq by (meson not_less)
  also have "\<dots> = (\<forall>c\<in>set cs. c \<le> 0)"
    by (simp add: all_set_conv_all_nth)
  finally show ?thesis .
qed

lemma random_choice_in: "seq \<noteq> [] \<Longrightarrow> random_choice r seq \<in> set seq"
  by (simp add: random_choice_def)

lemma claim_single:
  "invoke_adapter_claim True r g =
     (if total_requests g > 0 then (Some 1, g\<lparr>total_requests := total_requests g - 1\<rparr>) else (None, g))"
  by (simp add: invoke_adapter_claim_def)

lemma claim_multi_None:
  "\<forall>c\<in>set (adapter_counters g). c \<le> 0 \<Longrightarrow> invoke_adapter_claim False r g = (None, g)"
  by (simp add: invoke_adapter_claim_def remaining_adapters_Nil)

lemma claim_multi_Some:
  assumes "\<not> (\<forall>c\<in>set (adapter_counters g). c \<le> 0)"
  shows "\<exists>k. k < length (adapter_counters g) \<and> adapter_counters g ! k > 0 \<and>
             invoke_adapter_claim False r g =
               (Some (int k + 1), g\<lparr>adapter_counters := (adapter_counters g)[k := adapter_counters g ! k - 1]\<rparr>)"
proof -
  let ?rem = "remaining_adapters (adapter_counters g)"
  from assms have ne: "?rem \<noteq> []" by (simp add: remaining_adapters_Nil)
  then have "random_choice r ?rem \<in> set ?rem" by (rule random_choice_in)
  then have "random_choice r ?rem < length (adapter_counters g) \<and> adapter_counters g ! (random_choice r ?rem) > 0"
    by (simp add: set_remaining_adapters)
  with ne show ?thesis
    by (intro exI[of _ "random_choice r ?rem"]) (simp add: invoke_adapter_claim_def Let_def)
qed

section \<open>Steps and executions\<close>

lemma claim_None_iff:
  "(fst (invoke_adapter_claim single r g) = None) = exhausted single g"
proof (cases single)
  case True
  then show ?thesis by (auto simp: claim_single exhausted_def)
next
  case False
  show ?thesis
  proof (cases "\<forall>c\<in>set (adapter_counters g). c \<le> 0")
    case True
    with False show ?thesis
      by (simp add: claim_multi_None exhausted_def list_all_iff)
  next
    case nex: False
    from claim_multi_Some[OF nex, of r] False nex show ?thesis
      by (auto simp: exhausted_def list_all_iff)
  qed
qed

lemma claim_None_same:
  "invoke_adapter_claim single r g = (None, g') \<Longrightarrow> g' = g"
proof (cases single)
  case True
  assume "invoke_adapter_claim single r g = (None, g')"
  with True show ?thesis by (auto simp: claim_single split: if_splits)
next
  case False
  assume a: "invoke_adapter_claim single r g = (None, g')"
  show ?thesis
  proof (cases "\<forall>c\<in>set (adapter_counters g). c \<le> 0")
    case True
    with False a show ?thesis by (simp add: claim_multi_None)
  next
    case nex: False
    from claim_multi_Some[OF nex, of r] False a show ?thesis by auto
  qed
qed

lemma step_cases [consumes 1, case_names Spawn Acquire ClaimNone ClaimSome Return Raise]:
  assumes "step single W e s = Some s'"
  obtains
    (Spawn) "e = Spawn" "int (length (workers s)) < W"
      "s' = s\<lparr>workers := workers s @ [\<lparr>pc = AtLoop, latencies = [], aggregate_latency = []\<rparr>]\<rparr>"
  | (Acquire) i where "e = Acquire i" "i < length (workers s)" "pc (workers s ! i) = AtLoop"
      "counters_lock s = None"
      "s' = s\<lparr>counters_lock := Some i, workers := (workers s)[i := (workers s ! i)\<lparr>pc := InLock\<rparr>]\<rparr>"
  | (ClaimNone) i r where "e = Claim i r" "i < length (workers s)" "pc (workers s ! i) = InLock"
      "invoke_adapter_claim single r (glob s) = (None, glob s)" "exhausted single (glob s)"
      "s' = s\<lparr>counters_lock := None,
              workers := (workers s)[i := (workers s ! i)\<lparr>pc := Done,
                 aggregate_latency := aggregate_latency (workers s ! i) @ latencies (workers s ! i)\<rparr>]\<rparr>"
  | (ClaimSome) i r a g where "e = Claim i r" "i < length (workers s)" "pc (workers s ! i) = InLock"
      "invoke_adapter_claim single r (glob s) = (Some a, g)" "\<not> exhausted single (glob s)"
      "s' = s\<lparr>glob := g, counters_lock := None,
              workers := (workers s)[i := (workers s ! i)\<lparr>pc := InFlight a\<rparr>],
              claim_log := claim_log s @ [(i, a)]\<rparr>"
  | (Return) i ok lat a where "e = Return i ok lat" "i < length (workers s)"
      "pc (workers s ! i) = InFlight a"
      "s' = s\<lparr>workers := (workers s)[i := (workers s ! i)\<lparr>pc := AtLoop,
                 latencies := latencies (workers s ! i) @ [lat]\<rparr>]\<rparr>"
  | (Raise) i a where "e = Raise i" "i < length (workers s)"
      "pc (workers s ! i) = InFlight a"
      "s' = s\<lparr>workers := (workers s)[i := (workers s ! i)\<lparr>pc := Crashed\<rparr>]\<rparr>"
proof (cases e)
  case Spawn
  with assms that(1) show ?thesis by (auto split: if_splits)
next
  case (Acquire i)
  with assms that(2) show ?thesis by (auto simp: set_worker_def split: if_splits)
next
  case (Claim i r)
  obtain res g where c: "invoke_adapter_claim single r (glob s) = (res, g)"
    by (cases "invoke_adapter_claim single r (glob s)")
  show ?thesis
  proof (cases res)
    case None
    with c have g: "g = glob s" by (simp add: claim_None_same)
    from c None have "exhausted single (glob s)" using claim_None_iff[of single r "glob s"] by simp
    with Claim assms c None g that(3)[of i r] show ?thesis
      by (auto simp: set_worker_def Let_def split: if_splits)
  next
    case (Some a)
    with c have "\<not> exhausted single (glob s)" using claim_None_iff[of single r "glob s"] by simp
    with Claim assms c Some that(4)[of i r a g] show ?thesis
      by (auto simp: set_worker_def Let_def split: if_splits)
  qed
next
  case (Return i ok lat)
  from assms Return have "in_flight (pc (workers s ! i))" by (auto split: if_splits)
  then obtain a where "pc (workers s ! i) = InFlight a" by (cases "pc (workers s ! i)") auto
  with assms Return that(5)[of i ok lat a] show ?thesis
    by (auto simp: set_worker_def Let_def split: if_splits)
next
  case (Raise i)
  from assms Raise have "in_flight (pc (workers s ! i))" by (auto split: if_splits)
  then obtain a where "pc (workers s ! i) = InFlight a" by (cases "pc (workers s ! i)") auto
  with assms Raise that(6)[of i a] show ?thesis
    by (auto simp: set_worker_def Let_def split: if_splits)
qed

lemma exec_invariant:
  assumes "exec single W es s0 = Some s" and "P s0"
    and "\<And>s e s'. P s \<Longrightarrow> step single W e s = Some s' \<Longrightarrow> P s'"
  shows "P s"
  using assms(1,2)
proof (induction es arbitrary: s0)
  case Nil
  then show ?case by simp
next
  case (Cons e es)
  then show ?case by (auto split: option.splits intro: assms(3))
qed

lemma exec_append:
  "exec single W (es @ es') s =
     (case exec single W es s of None \<Rightarrow> None | Some s' \<Rightarrow> exec single W es' s')"
  by (induction es arbitrary: s) (auto split: option.splits)

section \<open>The lock and the accounting of claims\<close>

lemma sum_list_map_update:
  fixes f :: "'a \<Rightarrow> nat"
  shows "i < length ws \<Longrightarrow>
    sum_list (map f (ws[i := w])) + f (ws ! i) = sum_list (map f ws) + f w"
proof (induction ws arbitrary: i)
  case Nil
  then show ?case by simp
next
  case (Cons x xs)
  then show ?case by (cases i) (auto simp: algebra_simps)
qed

lemma list_all_update:
  "list_all P ws \<Longrightarrow> P w \<Longrightarrow> list_all P (ws[i := w])"
  by (auto simp: list_all_iff dest!: set_update_subset_insert[THEN subsetD])

lemma lock_inv_start: "lock_inv (start_run g)"
  by (simp add: lock_inv_def start_run_def)

lemma lock_inv_step:
  assumes "lock_inv s" "step single W e s = Some s'"
  shows "lock_inv s'"
  using assms(2)
proof (cases rule: step_cases)
  case Spawn
  with assms(1) show ?thesis
    by (auto simp: lock_inv_def nth_append less_Suc_eq)
next
  case (Acquire i)
  with assms(1) show ?thesis
    by (auto simp: lock_inv_def nth_list_update)
next
  case (ClaimNone i r)
  with assms(1) show ?thesis
    by (auto simp: lock_inv_def nth_list_update)
next
  case (ClaimSome i r a g)
  with assms(1) show ?thesis
    by (auto simp: lock_inv_def nth_list_update)
next
  case (Return i ok lat a)
  with assms(1) show ?thesis
    by (auto simp: lock_inv_def nth_list_update)
next
  case (Raise i a)
  with assms(1) show ?thesis
    by (auto simp: lock_inv_def nth_list_update)
qed

lemma acct_inv_start: "acct_inv (start_run g)"
  by (simp add: acct_inv_def start_run_def)

lemma acct_inv_step:
  assumes "acct_inv s" "step single W e s = Some s'"
  shows "acct_inv s'"
  using assms(2)
proof (cases rule: step_cases)
  case Spawn
  with assms(1) show ?thesis
    by (simp add: acct_inv_def claimed_by_def published_def)
next
  case (Acquire i)
  from assms(1) Acquire(2) have "published (workers s ! i)"
    by (simp add: acct_inv_def list_all_length)
  with Acquire have p: "published ((workers s ! i)\<lparr>pc := InLock\<rparr>)"
    by (simp add: published_def)
  from Acquire sum_list_map_update[of i "workers s" claimed_by "(workers s ! i)\<lparr>pc := InLock\<rparr>"]
  have "sum_list (map claimed_by (workers s')) = sum_list (map claimed_by (workers s))"
    by (simp add: claimed_by_def)
  with assms(1) Acquire p show ?thesis
    by (simp add: acct_inv_def list_all_update)
next
  case (ClaimNone i r)
  let ?w = "(workers s ! i)\<lparr>pc := Done,
                 aggregate_latency := aggregate_latency (workers s ! i) @ latencies (workers s ! i)\<rparr>"
  from assms(1) ClaimNone(2) have "published (workers s ! i)"
    by (simp add: acct_inv_def list_all_length)
  with ClaimNone have p: "published ?w"
    by (simp add: published_def)
  from ClaimNone sum_list_map_update[of i "workers s" claimed_by ?w]
  have "sum_list (map claimed_by (workers s')) = sum_list (map claimed_by (workers s))"
    by (simp add: claimed_by_def)
  with assms(1) ClaimNone p show ?thesis
    by (simp add: acct_inv_def list_all_update)
next
  case (ClaimSome i r a g)
  let ?w = "(workers s ! i)\<lparr>pc := InFlight a\<rparr>"
  from assms(1) ClaimSome(2) have "published (workers s ! i)"
    by (simp add: acct_inv_def list_all_length)
  with ClaimSome have p: "published ?w"
    by (simp add: published_def)
  from ClaimSome sum_list_map_update[of i "workers s" claimed_by ?w]
  have "sum_list (map claimed_by (workers s')) = Suc (sum_list (map claimed_by (workers s)))"
    by (simp add: claimed_by_def)
  with assms(1) ClaimSome p show ?thesis
    by (simp add: acct_inv_def list_all_update)
next
  case (Return i ok lat a)
  let ?w = "(workers s ! i)\<lparr>pc := AtLoop, latencies := latencies (workers s ! i) @ [lat]\<rparr>"
  from assms(1) Return(2) have "published (workers s ! i)"
    by (simp add: acct_inv_def list_all_length)
  with Return have p: "published ?w"
    by (simp add: published_def)
  from Return sum_list_map_update[of i "workers s" claimed_by ?w]
  have "sum_list (map claimed_by (workers s')) = sum_list (map claimed_by (workers s))"
    by (simp add: claimed_by_def)
  with assms(1) Return p show ?thesis
    by (simp add: acct_inv_def list_all_update)
next
  case (Raise i a)
  let ?w = "(workers s ! i)\<lparr>pc := Crashed\<rparr>"
  from assms(1) Raise(2) have "published (workers s ! i)"
    by (simp add: acct_inv_def list_all_length)
  with Raise have p: "published ?w"
    by (simp add: published_def)
  from Raise sum_list_map_update[of i "workers s" claimed_by ?w]
  have "sum_list (map claimed_by (workers s')) = sum_list (map claimed_by (workers s))"
    by (simp add: claimed_by_def)
  with assms(1) Raise p show ?thesis
    by (simp add: acct_inv_def list_all_update)
qed

section \<open>Every execution is finite and none gets stuck\<close>

lemma claim_Some_cases:
  assumes "invoke_adapter_claim single r g = (Some a, g')"
  shows "(single \<and> a = 1 \<and> total_requests g > 0 \<and> g' = g\<lparr>total_requests := total_requests g - 1\<rparr>) \<or>
         (\<not> single \<and> (\<exists>k<length (adapter_counters g). a = int k + 1 \<and> adapter_counters g ! k > 0 \<and>
              g' = g\<lparr>adapter_counters := (adapter_counters g)[k := adapter_counters g ! k - 1]\<rparr>))"
proof (cases single)
  case True
  with assms show ?thesis by (auto simp: claim_single split: if_splits)
next
  case False
  show ?thesis
  proof (cases "\<forall>c\<in>set (adapter_counters g). c \<le> 0")
    case True
    with False assms show ?thesis by (simp add: claim_multi_None)
  next
    case nex: False
    from claim_multi_Some[OF nex, of r] False assms show ?thesis by auto
  qed
qed

lemma sum_list_nat_update:
  assumes "k < length cs" "cs ! k > (0::int)"
  shows "Suc (sum_list (map nat (cs[k := cs ! k - 1]))) = sum_list (map nat cs)"
proof -
  from assms(1) have "sum_list (map nat (cs[k := cs ! k - 1])) + nat (cs ! k)
      = sum_list (map nat cs) + nat (cs ! k - 1)"
    by (rule sum_list_map_update)
  moreover from assms(2) have "nat (cs ! k) = Suc (nat (cs ! k - 1))" by simp
  ultimately show ?thesis by simp
qed

lemma sum_list_int_update:
  fixes cs :: "int list"
  shows "k < length cs \<Longrightarrow> sum_list (cs[k := cs ! k - 1]) = sum_list cs - 1"
proof (induction cs arbitrary: k)
  case Nil
  then show ?case by simp
next
  case (Cons c cs)
  then show ?case by (cases k) auto
qed

lemma claim_Some_remaining:
  assumes "invoke_adapter_claim single r g = (Some a, g')"
  shows "Suc (remaining single g') = remaining single g"
  using claim_Some_cases[OF assms]
  by (auto simp: remaining_def sum_list_nat_update)

lemma potential_step:
  assumes "step single W e s = Some s'"
  shows "potential single W s' < potential single W s"
  using assms
proof (cases rule: step_cases)
  case Spawn
  then show ?thesis by (simp add: potential_def)
next
  case (Acquire i)
  with sum_list_map_update[of i "workers s" "\<lambda>w. weight (pc w)" "(workers s ! i)\<lparr>pc := InLock\<rparr>"]
  show ?thesis by (simp add: potential_def)
next
  case (ClaimNone i r)
  with sum_list_map_update[of i "workers s" "\<lambda>w. weight (pc w)" "(workers s ! i)\<lparr>pc := Done,
                 aggregate_latency := aggregate_latency (workers s ! i) @ latencies (workers s ! i)\<rparr>"]
  show ?thesis by (simp add: potential_def)
next
  case (ClaimSome i r a g)
  with sum_list_map_update[of i "workers s" "\<lambda>w. weight (pc w)" "(workers s ! i)\<lparr>pc := InFlight a\<rparr>"]
    claim_Some_remaining[of single r "glob s" a g]
  show ?thesis by (simp add: potential_def)
next
  case (Return i ok lat a)
  with sum_list_map_update[of i "workers s" "\<lambda>w. weight (pc w)"
     "(workers s ! i)\<lparr>pc := AtLoop, latencies := latencies (workers s ! i) @ [lat]\<rparr>"]
  show ?thesis by (simp add: potential_def)
next
  case (Raise i a)
  with sum_list_map_update[of i "workers s" "\<lambda>w. weight (pc w)" "(workers s ! i)\<lparr>pc := Crashed\<rparr>"]
  show ?thesis by (simp add: potential_def)
qed

lemma exec_length_potential:
  "exec single W es s = Some s' \<Longrightarrow> length es + potential single W s' \<le> potential single W s"
proof (induction es arbitrary: s)
  case Nil
  then show ?case by simp
next
  case (Cons e es)
  then obtain s1 where s1: "step single W e s = Some s1" and r: "exec single W es s1 = Some s'"
    by (auto split: option.splits)
  from Cons.IH[OF r] potential_step[OF s1] show ?case by simp
qed

lemma potential_start:
  "potential single W (start_run g) = 3 * remaining single g + 3 * nat W"
  by (simp add: potential_def start_run_def)

lemma progress:
  assumes "lock_inv s" "\<not> finished W s"
  shows "\<exists>e. step single W e s \<noteq> None"
proof (cases "int (length (workers s)) < W")
  case True
  then have "step single W Spawn s \<noteq> None" by simp
  then show ?thesis ..
next
  case False
  with assms(2) have "\<not> list_all terminated (workers s)" by (simp add: finished_def)
  then obtain i where i: "i < length (workers s)" and nt: "\<not> terminated (workers s ! i)"
    by (auto simp: list_all_length)
  show ?thesis
  proof (cases "pc (workers s ! i)")
    case AtLoop
    show ?thesis
    proof (cases "counters_lock s")
      case None
      with AtLoop i have "step single W (Acquire i) s \<noteq> None" by simp
      then show ?thesis ..
    next
      case (Some j)
      with assms(1) have "j < length (workers s)" "pc (workers s ! j) = InLock"
        by (auto simp: lock_inv_def)
      then have "step single W (Claim j 0) s \<noteq> None"
        by (auto simp: Let_def split: prod.splits option.splits)
      then show ?thesis ..
    qed
  next
    case InLock
    with i have "step single W (Claim i 0) s \<noteq> None"
      by (auto simp: Let_def split: prod.splits option.splits)
    then show ?thesis ..
  next
    case (InFlight a)
    with i have "step single W (Return i True 0) s \<noteq> None" by (simp add: Let_def)
    then show ?thesis ..
  next
    case Done
    with nt show ?thesis by (simp add: terminated_def)
  next
    case Crashed
    with nt show ?thesis by (simp add: terminated_def)
  qed
qed

lemma can_finish:
  assumes "lock_inv s"
  shows "\<exists>es s'. exec single W es s = Some s' \<and> finished W s'"
  using assms
proof (induction "potential single W s" arbitrary: s rule: less_induct)
  case less
  show ?case
  proof (cases "finished W s")
    case True
    then have "exec single W [] s = Some s \<and> finished W s" by simp
    then show ?thesis by blast
  next
    case False
    from progress[OF less.prems False, of single]
    obtain e s1 where st: "step single W e s = Some s1" by auto
    from less.hyps[OF potential_step[OF st] lock_inv_step[OF less.prems st]]
    obtain es s' where "exec single W es s1 = Some s'" "finished W s'" by blast
    with st have "exec single W (e # es) s = Some s' \<and> finished W s'" by simp
    then show ?thesis by blast
  qed
qed

section \<open>Counters along an execution\<close>

lemma nonneg_claim:
  assumes "nonneg g" "invoke_adapter_claim single r g = (res, g')"
  shows "nonneg g'"
proof (cases res)
  case None
  with assms(2) have "g' = g" by (auto dest: claim_None_same)
  with assms(1) show ?thesis by simp
next
  case (Some a)
  with assms(2) have "invoke_adapter_claim single r g = (Some a, g')" by simp
  from claim_Some_cases[OF this] assms(1) show ?thesis
    by (auto simp: nonneg_def intro!: list_all_update)
qed

lemma remaining_sum_claim:
  assumes "invoke_adapter_claim single r g = (res, g')"
  shows "remaining_sum g' = remaining_sum g - (if res = None then 0 else 1)"
proof (cases res)
  case None
  with assms have "g' = g" by (auto dest: claim_None_same)
  with None show ?thesis by simp
next
  case (Some a)
  with assms have "invoke_adapter_claim single r g = (Some a, g')" by simp
  from claim_Some_cases[OF this] Some show ?thesis
    by (auto simp: remaining_sum_def sum_list_int_update)
qed

lemma pool_zero_exhausted: "pool_zero single g \<Longrightarrow> exhausted single g"
  by (auto simp: pool_zero_def exhausted_def list_all_iff)

lemma exhausted_nonneg_zero: "exhausted single g \<Longrightarrow> nonneg g \<Longrightarrow> pool_zero single g"
  by (fastforce simp: pool_zero_def exhausted_def nonneg_def list_all_iff)

lemma exhausted_claim:
  "exhausted single g \<Longrightarrow> invoke_adapter_claim single r g = (None, g)"
  using claim_None_iff[of single r g] claim_None_same[of single r g]
  by (cases "invoke_adapter_claim single r g") auto

lemma nonneg_step:
  assumes "nonneg (glob s)" "step single W e s = Some s'"
  shows "nonneg (glob s')"
  using assms(2)
proof (cases rule: step_cases)
  case (ClaimSome i r a g)
  with nonneg_claim[OF assms(1), of single r "Some a" g] show ?thesis by simp
qed (use assms(1) in simp_all)

lemma remaining_sum_step:
  assumes "step single W e s = Some s'"
  shows "remaining_sum (glob s') \<le> remaining_sum (glob s)"
  using assms
proof (cases rule: step_cases)
  case (ClaimSome i r a g)
  with remaining_sum_claim[of single r "glob s" "Some a" g] show ?thesis by simp
qed simp_all

lemma exhausted_step:
  assumes "exhausted single (glob s)" "step single W e s = Some s'"
  shows "glob s' = glob s \<and> claim_log s' = claim_log s"
  using assms(2)
proof (cases rule: step_cases)
  case (ClaimSome i r a g)
  with assms(1) show ?thesis by simp
qed simp_all

lemma exhausted_exec:
  assumes "exhausted single (glob s)" "exec single W es s = Some s'"
  shows "glob s' = glob s \<and> claim_log s' = claim_log s"
proof -
  show ?thesis
  proof (rule exec_invariant[OF assms(2), where P = "\<lambda>t. glob t = glob s \<and> claim_log t = claim_log s"])
    show "glob s = glob s \<and> claim_log s = claim_log s" by simp
  next
    fix t e t'
    assume t: "glob t = glob s \<and> claim_log t = claim_log s" and st: "step single W e t = Some t'"
    from t assms(1) have "exhausted single (glob t)" by simp
    from exhausted_step[OF this st] t show "glob t' = glob s \<and> claim_log t' = claim_log s" by simp
  qed
qed

lemma done_step:
  assumes "(\<exists>w\<in>set (workers s). pc w = Done) \<longrightarrow> exhausted single (glob s)"
    and "step single W e s = Some s'"
  shows "(\<exists>w\<in>set (workers s'). pc w = Done) \<longrightarrow> exhausted single (glob s')"
  using assms(2)
proof (cases rule: step_cases)
  case Spawn
  with assms(1) show ?thesis by auto
next
  case (Acquire i)
  with assms(1) show ?thesis
    by (auto dest!: set_update_subset_insert[THEN subsetD])
next
  case (ClaimNone i r)
  then show ?thesis by simp
next
  case (ClaimSome i r a g)
  with assms(1) have "\<forall>w\<in>set (workers s). pc w \<noteq> Done" by auto
  with ClaimSome show ?thesis
    by (auto dest!: set_update_subset_insert[THEN subsetD])
next
  case (Return i ok lat a)
  with assms(1) show ?thesis
    by (auto dest!: set_update_subset_insert[THEN subsetD])
next
  case (Raise i a)
  with assms(1) show ?thesis
    by (auto dest!: set_update_subset_insert[THEN subsetD])
qed

lemma done_exhausted:
  assumes "exec single W es (start_run g) = Some s" "w \<in> set (workers s)" "pc w = Done"
  shows "exhausted single (glob s)"
proof -
  have "(\<exists>w\<in>set (workers s). pc w = Done) \<longrightarrow> exhausted single (glob s)"
    by (rule exec_invariant[OF assms(1),
          where P = "\<lambda>t. (\<exists>w\<in>set (workers t). pc w = Done) \<longrightarrow> exhausted single (glob t)"])
       (simp add: start_run_def, rule done_step)
  with assms(2,3) show ?thesis by blast
qed

lemma single_budget_step:
  assumes "step True W e s = Some s'"
  shows "total_requests (glob s') + int (length (claim_log s'))
           = total_requests (glob s) + int (length (claim_log s)) \<and>
         adapter_counters (glob s') = adapter_counters (glob s)"
  using assms
proof (cases rule: step_cases)
  case (ClaimSome i r a g)
  with claim_Some_cases[of True r "glob s" a g] show ?thesis by auto
qed simp_all

lemma single_budget:
  assumes "exec True W es (start_run g) = Some s"
  shows "total_requests (glob s) + int (length (claim_log s)) = total_requests g \<and>
         adapter_counters (glob s) = adapter_counters g"
  by (rule exec_invariant[OF assms, where P = "\<lambda>t. total_requests (glob t) + int (length (claim_log t)) = total_requests g \<and>
         adapter_counters (glob t) = adapter_counters g"])
     (simp add: start_run_def, use single_budget_step in auto)

section \<open>Claims, counters and measurements\<close>

lemma claims_of_snoc:
  "claims_of b (entries @ [(i, a)]) = claims_of b entries + (if a = b then 1 else 0)"
  by (simp add: claims_of_def)

lemma multi_inv_start: "multi_inv g (start_run g)"
  by (simp add: multi_inv_def start_run_def claims_of_def)

lemma multi_inv_step:
  assumes "multi_inv g s" "step False W e s = Some s'"
  shows "multi_inv g s'"
  using assms(2)
proof (cases rule: step_cases)
  case (ClaimSome i r a g')
  from claim_Some_cases[OF ClaimSome(4)] obtain k where
    k: "k < length (adapter_counters (glob s))" "a = int k + 1"
       "g' = (glob s)\<lparr>adapter_counters := (adapter_counters (glob s))[k := adapter_counters (glob s) ! k - 1]\<rparr>"
    by auto
  from assms(1) have len: "length (adapter_counters (glob s)) = length (adapter_counters g)"
    by (simp add: multi_inv_def)
  have 1: "total_requests (glob s') = total_requests g"
    using assms(1) ClaimSome k by (simp add: multi_inv_def)
  have 2: "length (adapter_counters (glob s')) = length (adapter_counters g)"
    using assms(1) ClaimSome k by (simp add: multi_inv_def)
  have 4: "sum_list (adapter_counters (glob s')) + int (length (claim_log s')) = sum_list (adapter_counters g)"
    using assms(1) ClaimSome k by (simp add: multi_inv_def sum_list_int_update)
  have 3: "int (claims_of b (claim_log s')) =
            (if 1 \<le> b \<and> b \<le> int (length (adapter_counters g))
             then adapter_counters g ! nat (b - 1) - adapter_counters (glob s') ! nat (b - 1)
             else 0)" for b
  proof -
    from assms(1) have old: "int (claims_of b (claim_log s)) =
            (if 1 \<le> b \<and> b \<le> int (length (adapter_counters g))
             then adapter_counters g ! nat (b - 1) - adapter_counters (glob s) ! nat (b - 1)
             else 0)"
      by (simp add: multi_inv_def)
    show ?thesis
    proof (cases "b = a")
      case True
      with old k len ClaimSome show ?thesis
        by (simp add: claims_of_snoc)
    next
      case False
      with k have "nat (b - 1) \<noteq> k \<or> \<not> (1 \<le> b)" by auto
      with old k len ClaimSome False show ?thesis
        by (auto simp: claims_of_snoc)
    qed
  qed
  from 1 2 3 4 show ?thesis unfolding multi_inv_def by blast
qed (use assms(1) in \<open>simp_all add: multi_inv_def\<close>)

lemma multi_inv_exec:
  assumes "exec False W es (start_run g) = Some s"
  shows "multi_inv g s"
  by (rule exec_invariant[OF assms, where P = "multi_inv g"])
     (rule multi_inv_start, rule multi_inv_step)

lemma nonneg_exec:
  assumes "exec single W es s = Some s'" "nonneg (glob s)"
  shows "nonneg (glob s')"
  by (rule exec_invariant[OF assms(1), where P = "\<lambda>t. nonneg (glob t)"])
     (rule assms(2), rule nonneg_step)

lemma remaining_sum_exec:
  "exec single W es s = Some s' \<Longrightarrow> remaining_sum (glob s') \<le> remaining_sum (glob s)"
proof (induction es arbitrary: s)
  case Nil
  then show ?case by simp
next
  case (Cons e es)
  then obtain s1 where s1: "step single W e s = Some s1" and r: "exec single W es s1 = Some s'"
    by (auto split: option.splits)
  from Cons.IH[OF r] remaining_sum_step[OF s1] show ?case by simp
qed

lemma lock_inv_exec:
  assumes "exec single W es (start_run g) = Some s"
  shows "lock_inv s"
  by (rule exec_invariant[OF assms, where P = lock_inv])
     (rule lock_inv_start, rule lock_inv_step)

lemma acct_inv_exec:
  assumes "exec single W es (start_run g) = Some s"
  shows "acct_inv s"
  by (rule exec_invariant[OF assms, where P = acct_inv])
     (rule acct_inv_start, rule acct_inv_step)

lemma measurements_le_claimed:
  "list_all published ws \<Longrightarrow>
   sum_list (map length (map aggregate_latency ws)) \<le> sum_list (map claimed_by ws)"
  by (induction ws) (auto simp: published_def claimed_by_def)

lemma measurements_eq_claimed:
  "list_all published ws \<Longrightarrow> list_all (\<lambda>w. pc w = Done) ws \<Longrightarrow>
   sum_list (map length (map aggregate_latency ws)) = sum_list (map claimed_by ws)"
  by (induction ws) (auto simp: published_def claimed_by_def)

lemma finished_no_crash_all_done:
  "finished W s \<Longrightarrow> no_crash s \<Longrightarrow> list_all (\<lambda>w. pc w = Done) (workers s)"
  by (auto simp: finished_def no_crash_def terminated_def list_all_iff)

lemma measurements_le_claims:
  assumes "exec single W es (start_run g) = Some s"
  shows "total_measurements s \<le> length (claim_log s)"
  using acct_inv_exec[OF assms] measurements_le_claimed[of "workers s"]
  by (simp add: acct_inv_def total_measurements_def all_latencies_def)

lemma measurements_eq_claims:
  assumes "exec single W es (start_run g) = Some s" "finished W s" "no_crash s"
  shows "total_measurements s = length (claim_log s)"
  using acct_inv_exec[OF assms(1)] finished_no_crash_all_done[OF assms(2,3)]
    measurements_eq_claimed[of "workers s"]
  by (simp add: acct_inv_def total_measurements_def all_latencies_def)

lemma finished_has_done:
  assumes "finished W s" "no_crash s" "0 < W"
  shows "\<exists>w\<in>set (workers s). pc w = Done"
proof -
  from assms(1,3) have "workers s \<noteq> []" by (auto simp: finished_def)
  then obtain w where "w \<in> set (workers s)" by (cases "workers s") auto
  with finished_no_crash_all_done[OF assms(1,2)] show ?thesis
    by (auto simp: list_all_iff)
qed

section \<open>Non-negative counters and the separation of the two modes\<close>

lemma claim_counters_nonneg:
  assumes "list_all (\<lambda>c. 0 \<le> c) (adapter_counters g)" "invoke_adapter_claim single r g = (res, g')"
  shows "list_all (\<lambda>c. 0 \<le> c) (adapter_counters g')"
proof (cases res)
  case None
  with assms(2) have "g' = g" by (auto dest: claim_None_same)
  with assms(1) show ?thesis by simp
next
  case (Some a)
  with assms(2) have "invoke_adapter_claim single r g = (Some a, g')" by simp
  from claim_Some_cases[OF this] assms(1) show ?thesis
    by (auto intro!: list_all_update)
qed

lemma claim_total_nonneg:
  assumes "0 \<le> total_requests g" "invoke_adapter_claim single r g = (res, g')"
  shows "0 \<le> total_requests g'"
proof (cases res)
  case None
  with assms(2) have "g' = g" by (auto dest: claim_None_same)
  with assms(1) show ?thesis by simp
next
  case (Some a)
  with assms(2) have "invoke_adapter_claim single r g = (Some a, g')" by simp
  from claim_Some_cases[OF this] assms(1) show ?thesis by auto
qed

lemma counters_nonneg_exec:
  assumes "exec single W es s = Some s'" "list_all (\<lambda>c. 0 \<le> c) (adapter_counters (glob s))"
  shows "list_all (\<lambda>c. 0 \<le> c) (adapter_counters (glob s'))"
proof (rule exec_invariant[OF assms(1), where P = "\<lambda>t. list_all (\<lambda>c. 0 \<le> c) (adapter_counters (glob t))"])
  show "list_all (\<lambda>c. 0 \<le> c) (adapter_counters (glob s))" by (rule assms(2))
next
  fix t e t'
  assume p: "list_all (\<lambda>c. 0 \<le> c) (adapter_counters (glob t))" and st: "step single W e t = Some t'"
  from st show "list_all (\<lambda>c. 0 \<le> c) (adapter_counters (glob t'))"
  proof (cases rule: step_cases)
    case (ClaimSome i r a g)
    with claim_counters_nonneg[OF p, of single r "Some a" g] show ?thesis by simp
  qed (use p in simp_all)
qed

lemma total_nonneg_exec:
  assumes "exec single W es s = Some s'" "0 \<le> total_requests (glob s)"
  shows "0 \<le> total_requests (glob s')"
proof (rule exec_invariant[OF assms(1), where P = "\<lambda>t. 0 \<le> total_requests (glob t)"])
  show "0 \<le> total_requests (glob s)" by (rule assms(2))
next
  fix t e t'
  assume p: "0 \<le> total_requests (glob t)" and st: "step single W e t = Some t'"
  from st show "0 \<le> total_requests (glob t')"
  proof (cases rule: step_cases)
    case (ClaimSome i r a g)
    with claim_total_nonneg[OF p, of single r "Some a" g] show ?thesis by simp
  qed (use p in simp_all)
qed

lemma isolation_step:
  assumes "step single W e s = Some s'"
  shows "(single \<longrightarrow> adapter_counters (glob s') = adapter_counters (glob s)) \<and>
         (\<not> single \<longrightarrow> total_requests (glob s') = total_requests (glob s))"
  using assms
proof (cases rule: step_cases)
  case (ClaimSome i r a g)
  with claim_Some_cases[of single r "glob s" a g] show ?thesis by auto
qed simp_all

lemma isolation_exec:
  "exec single W es s = Some s' \<Longrightarrow>
     (single \<longrightarrow> adapter_counters (glob s') = adapter_counters (glob s)) \<and>
     (\<not> single \<longrightarrow> total_requests (glob s') = total_requests (glob s))"
proof (induction es arbitrary: s)
  case Nil
  then show ?case by simp
next
  case (Cons e es)
  then obtain s1 where s1: "step single W e s = Some s1" and r: "exec single W es s1 = Some s'"
    by (auto split: option.splits)
  from Cons.IH[OF r] isolation_step[OF s1] show ?case by simp
qed

lemma initial_globals_nonneg:
  assumes "0 \<le> B" "initial_globals B N = Inr g0"
  shows "nonneg g0"
proof -
  from assms(2) have n: "N \<noteq> 0"
    and g: "g0 = \<lparr>total_requests = B, adapter_counters = replicate (nat N) (B div N)\<rparr>"
    by (auto simp: initial_globals_def split: if_splits)
  have "0 \<le> B div N" if "0 < N" using that assms(1) by (simp add: pos_imp_zdiv_nonneg_iff)
  then have "list_all (\<lambda>c. 0 \<le> c) (replicate (nat N) (B div N))"
    by (cases "0 < N") (auto simp: list_all_iff)
  with g assms(1) show ?thesis by (simp add: nonneg_def)
qed

section \<open>Totals of a run\<close>

lemma sum_list_nonneg_all:
  fixes cs :: "int list"
  shows "list_all (\<lambda>c. 0 \<le> c) cs \<Longrightarrow> 0 \<le> sum_list cs"
  by (induction cs) auto

lemma sum_list_zero_all:
  fixes cs :: "int list"
  shows "list_all (\<lambda>c. 0 \<le> c) cs \<Longrightarrow> list_all (\<lambda>c. c \<le> 0) cs \<Longrightarrow> sum_list cs = 0"
  by (induction cs) auto

lemma multi_totals:
  assumes "0 \<le> B" "0 < N" "adapter_counters g = replicate (nat N) (B div N)"
    and "exec False W es (start_run g) = Some s"
  shows "(\<forall>a. int (claims_of a (claim_log s)) \<le> B div N) \<and>
         int (length (claim_log s)) \<le> N * (B div N) \<and>
         (finished W s \<and> 0 < W \<and> no_crash s \<longrightarrow> int (length (claim_log s)) = N * (B div N))"
proof -
  from assms(1,2) have q: "0 \<le> B div N" by (simp add: pos_imp_zdiv_nonneg_iff)
  from assms(3) q have nn0: "list_all (\<lambda>c. 0 \<le> c) (adapter_counters (glob (start_run g)))"
    by (simp add: start_run_def list_all_iff)
  from counters_nonneg_exec[OF assms(4) nn0]
  have nn: "list_all (\<lambda>c. 0 \<le> c) (adapter_counters (glob s))" .
  from multi_inv_exec[OF assms(4)] have inv: "multi_inv g s" .
  from inv have len: "length (adapter_counters (glob s)) = nat N"
    using assms(3) by (simp add: multi_inv_def)
  from assms(2,3) have sum0: "sum_list (adapter_counters g) = N * (B div N)"
    by (simp add: sum_list_replicate)
  from inv sum0 have tot: "sum_list (adapter_counters (glob s)) + int (length (claim_log s)) = N * (B div N)"
    by (simp add: multi_inv_def)
  have per: "int (claims_of a (claim_log s)) \<le> B div N" for a
  proof -
    from inv have cl: "int (claims_of a (claim_log s)) =
            (if 1 \<le> a \<and> a \<le> int (length (adapter_counters g))
             then adapter_counters g ! nat (a - 1) - adapter_counters (glob s) ! nat (a - 1)
             else 0)"
      unfolding multi_inv_def by blast
    show ?thesis
  proof (cases "1 \<le> a \<and> a \<le> int (length (adapter_counters g))")
    case True
    with assms(2,3) have k: "nat (a - 1) < nat N" by auto
    with len nn have "0 \<le> adapter_counters (glob s) ! nat (a - 1)"
      by (simp add: list_all_length)
    moreover from k assms(3) have "adapter_counters g ! nat (a - 1) = B div N" by simp
    moreover from cl True have "int (claims_of a (claim_log s)) =
        adapter_counters g ! nat (a - 1) - adapter_counters (glob s) ! nat (a - 1)"
      by simp
    ultimately show ?thesis by simp
  next
    case False
    with cl have "int (claims_of a (claim_log s)) = 0" by simp
    with q show ?thesis by simp
  qed
  qed
  have le: "int (length (claim_log s)) \<le> N * (B div N)"
    using tot sum_list_nonneg_all[OF nn] by simp
  have eq: "int (length (claim_log s)) = N * (B div N)" if "finished W s" "0 < W" "no_crash s"
  proof -
    from finished_has_done[OF that(1,3,2)] obtain w where "w \<in> set (workers s)" "pc w = Done"
      by blast
    from done_exhausted[OF assms(4) this] have "list_all (\<lambda>c. c \<le> 0) (adapter_counters (glob s))"
      by (simp add: exhausted_def)
    from sum_list_zero_all[OF nn this] tot show ?thesis by simp
  qed
  from per le eq show ?thesis by blast
qed

lemma single_totals:
  assumes "0 \<le> B" "total_requests g = B" "exec True W es (start_run g) = Some s"
  shows "int (length (claim_log s)) \<le> B \<and>
         (finished W s \<and> 0 < W \<and> no_crash s \<longrightarrow> int (length (claim_log s)) = B)"
proof -
  from assms(1,2) have "0 \<le> total_requests (glob (start_run g))" by (simp add: start_run_def)
  from total_nonneg_exec[OF assms(3) this] have nn: "0 \<le> total_requests (glob s)" .
  from single_budget[OF assms(3)] assms(2)
  have b: "total_requests (glob s) + int (length (claim_log s)) = B" by simp
  have eq: "int (length (claim_log s)) = B" if "finished W s" "0 < W" "no_crash s"
  proof -
    from finished_has_done[OF that(1,3,2)] obtain w where "w \<in> set (workers s)" "pc w = Done"
      by blast
    from done_exhausted[OF assms(3) this] have "total_requests (glob s) \<le> 0"
      by (simp add: exhausted_def)
    with nn b show ?thesis by simp
  qed
  from nn b eq show ?thesis by auto
qed

lemma mult_div_le_int: "0 < N \<Longrightarrow> N * (B div N) \<le> (B::int)"
  using mult_div_mod_eq[of N B] pos_mod_sign[of N B] by linarith

section \<open>Runs without claims, dead workers and the report\<close>

lemma initial_globals_zero:
  assumes "initial_globals 0 N = Inr g"
  shows "pool_zero single g"
  using assms by (auto simp: initial_globals_def pool_zero_def list_all_iff split: if_splits)

lemma no_claims_workers:
  assumes "acct_inv s" "claim_log s = []"
  shows "list_all (\<lambda>w. latencies w = [] \<and> \<not> in_flight (pc w) \<and> pc w \<noteq> Crashed
                       \<and> aggregate_latency w = []) (workers s)"
proof -
  from assms have z: "\<forall>w\<in>set (workers s). claimed_by w = 0"
    and p: "\<forall>w\<in>set (workers s). published w"
    by (auto simp: acct_inv_def list_all_iff)
  have "latencies w = [] \<and> \<not> in_flight (pc w) \<and> pc w \<noteq> Crashed \<and> aggregate_latency w = []"
    if "w \<in> set (workers s)" for w
  proof -
    from z that have c: "latencies w = []" "pending (pc w) = 0" by (simp_all add: claimed_by_def)
    from c(2) have "\<not> in_flight (pc w) \<and> pc w \<noteq> Crashed" by (cases "pc w") simp_all
    moreover from p that c(1) have "aggregate_latency w = []" by (simp add: published_def)
    ultimately show ?thesis using c(1) by simp
  qed
  then show ?thesis by (simp add: list_all_iff)
qed

lemma report_no_measurements:
  "list_all (\<lambda>l. l = []) lats \<Longrightarrow> report t0 t1 t2 lats = Inl ZeroDivisionError"
proof -
  assume "list_all (\<lambda>l. l = []) lats"
  then have "sum_list (map length lats) = 0" by (induction lats) auto
  then show ?thesis by (simp add: report_def)
qed

lemma pool_zero_remaining: "pool_zero single g \<Longrightarrow> remaining single g = 0"
  by (auto simp: pool_zero_def remaining_def list_all_iff)

lemma zero_pool_run:
  assumes "pool_zero single g" "exec single W es (start_run g) = Some s"
  shows "claim_log s = [] \<and> glob s = g \<and>
         list_all (\<lambda>w. latencies w = [] \<and> \<not> in_flight (pc w) \<and> pc w \<noteq> Crashed
                       \<and> aggregate_latency w = []) (workers s)"
proof -
  from assms(1) have "exhausted single (glob (start_run g))"
    by (simp add: pool_zero_exhausted start_run_def)
  from exhausted_exec[OF this assms(2)]
  have 1: "claim_log s = []" and 2: "glob s = g" by (simp_all add: start_run_def)
  from no_claims_workers[OF acct_inv_exec[OF assms(2)] 1] 1 2 show ?thesis by simp
qed

lemma zero_pool_finished:
  assumes "0 < W" "pool_zero single g" "exec single W es (start_run g) = Some s"
    and "finished W s"
  shows "workers s \<noteq> [] \<and> list_all (\<lambda>w. pc w = Done) (workers s) \<and>
         benchmark_scenario single W t0 t1 t2 es g = Some (g, Inl ZeroDivisionError)"
proof -
  from zero_pool_run[OF assms(2,3)]
  have g: "glob s = g"
    and ws: "list_all (\<lambda>w. latencies w = [] \<and> \<not> in_flight (pc w) \<and> pc w \<noteq> Crashed
                       \<and> aggregate_latency w = []) (workers s)"
    by simp_all
  from assms(4,1) have a: "workers s \<noteq> []" by (auto simp: finished_def)
  from assms(4) ws have b: "list_all (\<lambda>w. pc w = Done) (workers s)"
    by (auto simp: finished_def terminated_def list_all_iff)
  from ws have "list_all (\<lambda>l. l = []) (all_latencies s)"
    by (simp add: all_latencies_def list_all_iff)
  then have "report t0 t1 t2 (all_latencies s) = Inl ZeroDivisionError"
    by (rule report_no_measurements)
  with assms(3,4) g have "benchmark_scenario single W t0 t1 t2 es g
      = Some (g, Inl ZeroDivisionError)"
    by (simp add: benchmark_scenario_def)
  with a b show ?thesis by blast
qed

lemma crashed_step:
  assumes "i < length (workers s)" "pc (workers s ! i) = Crashed" "step single W e s = Some s'"
  shows "i < length (workers s') \<and> workers s' ! i = workers s ! i"
  using assms(3)
proof (cases rule: step_cases)
  case Spawn
  with assms(1) show ?thesis by (simp add: nth_append)
next
  case (Acquire j)
  with assms(1,2) show ?thesis by (auto simp: nth_list_update)
next
  case (ClaimNone j r)
  with assms(1,2) show ?thesis by (auto simp: nth_list_update)
next
  case (ClaimSome j r a g)
  with assms(1,2) show ?thesis by (auto simp: nth_list_update)
next
  case (Return j ok lat a)
  with assms(1,2) show ?thesis by (auto simp: nth_list_update)
next
  case (Raise j a)
  with assms(1,2) show ?thesis by (auto simp: nth_list_update)
qed

lemma crashed_exec:
  assumes "exec single W es s = Some s'" "i < length (workers s)" "pc (workers s ! i) = Crashed"
  shows "i < length (workers s') \<and> workers s' ! i = workers s ! i"
proof (rule exec_invariant[OF assms(1),
        where P = "\<lambda>t. i < length (workers t) \<and> workers t ! i = workers s ! i"])
  from assms(2) show "i < length (workers s) \<and> workers s ! i = workers s ! i" by simp
next
  fix t e t'
  assume p: "i < length (workers t) \<and> workers t ! i = workers s ! i"
    and st: "step single W e t = Some t'"
  from p assms(3) have "pc (workers t ! i) = Crashed" by simp
  from crashed_step[OF _ this st] p
  show "i < length (workers t') \<and> workers t' ! i = workers s ! i" by simp
qed

lemma sum_list_concat_real:
  fixes lats :: "real list list"
  shows "sum_list (concat lats) = sum_list (map sum_list lats)"
  by (induction lats) simp_all

lemma exact_value_foldl_Add:
  "exact_value (foldl Add a xs) = exact_value a + sum_list (map exact_value xs)"
  by (induction xs arbitrary: a) simp_all

lemma exact_value_py_sum:
  "exact_value (py_sum xs) = sum_list (map exact_value xs)"
  by (simp add: py_sum_def exact_value_foldl_Add)

lemma exact_value_total:
  "exact_value (py_sum (map (\<lambda>ls. py_sum (map Val ls)) lats)) = sum_list (concat lats)"
proof -
  have "map exact_value (map Val ls) = ls" for ls by (induction ls) simp_all
  then have "exact_value (py_sum (map Val ls)) = sum_list ls" for ls
    by (simp only: exact_value_py_sum)
  then have "map exact_value (map (\<lambda>ls. py_sum (map Val ls)) lats) = map sum_list lats"
    by simp
  then show ?thesis by (simp only: exact_value_py_sum sum_list_concat_real)
qed

lemma report_some:
  assumes "0 < sum_list (map length lats)" "t1 \<noteq> t0"
  shows "report t0 t1 t2 lats =
     Inr \<lparr>total_latency = py_sum (map (\<lambda>ls. py_sum (map Val ls)) lats),
          total_requests_made = int (sum_list (map length lats)),
          average_latency =
            Div (py_sum (map (\<lambda>ls. py_sum (map Val ls)) lats))
                (IntVal (int (sum_list (map length lats)))),
          throughput = Div (IntVal (int (sum_list (map length lats)))) (Sub (Val t1) (Val t0)),
          total_time = Sub (Val t2) (Val t0)\<rparr>"
proof -
  from assms(1) have "sum_list (map length lats) \<noteq> 0" by linarith
  with assms(2) show ?thesis
    by (simp add: report_def Let_def del: sum_list_eq_0_iff)
qed

lemma report_clock:
  assumes "0 < sum_list (map length lats)"
  shows "report t0 t0 t2 lats = Inl ZeroDivisionError"
  by (simp add: report_def Let_def)

section \<open>Claims about the counts of a run\<close>

text \<open>
  Claim C1, as the code has it. A multi-adapter run starts from
  \<^verbatim>\<open>adapter_counters = [B // N] * N\<close> with \<open>0 \<le> B\<close> and \<open>0 < N\<close>. In every state of every
  execution each adapter id has been claimed at most \<open>B div N\<close> times and the claims
  number at most \<open>N * (B div N)\<close>. When the run is complete, at least one thread was
  started and no request raised, the claims number exactly \<open>N * (B div N)\<close>.
\<close>

theorem multi_claims_per_target:
  assumes "0 \<le> B" "0 < N" "adapter_counters g = replicate (nat N) (B div N)"
    and "exec False W es (start_run g) = Some s"
  shows "(\<forall>a. int (claims_of a (claim_log s)) \<le> B div N) \<and>
         int (length (claim_log s)) \<le> N * (B div N) \<and>
         (finished W s \<and> 0 < W \<and> no_crash s \<longrightarrow> int (length (claim_log s)) = N * (B div N))"
  using assms by (rule multi_totals)

theorem multi_claims_per_target_witness:
  "(0::int) \<le> 5 \<and> (0::int) < 2 \<and>
   initial_globals 5 2 = Inr \<lparr>total_requests = 5, adapter_counters = replicate (nat 2) (5 div 2)\<rparr> \<and>
   exec False 1
     [Spawn, Acquire 0, Claim 0 1, Return 0 True 1, Acquire 0, Claim 0 0, Return 0 False 2,
      Acquire 0, Claim 0 3, Return 0 True 1, Acquire 0, Claim 0 7, Return 0 True 1,
      Acquire 0, Claim 0 0]
     (start_run \<lparr>total_requests = 5, adapter_counters = replicate (nat 2) (5 div 2)\<rparr>)
     = Some \<lparr>glob = \<lparr>total_requests = 5, adapter_counters = [0, 0]\<rparr>, counters_lock = None,
             workers = [\<lparr>pc = Done, latencies = [1, 2, 1, 1], aggregate_latency = [1, 2, 1, 1]\<rparr>],
             claim_log = [(0, 2), (0, 1), (0, 2), (0, 1)]\<rparr> \<and>
   int (claims_of 1 [(0, 2), (0, 1), (0, 2), (0, 1)]) \<le> 5 div 2 \<and>
   int (claims_of 2 [(0, 2), (0, 1), (0, 2), (0, 1)]) \<le> 5 div 2 \<and>
   int (length [(0::nat, 2::int), (0, 1), (0, 2), (0, 1)]) = 2 * (5 div 2)"
proof -
  let ?g = "\<lparr>total_requests = 5, adapter_counters = replicate (nat 2) (5 div 2)\<rparr>"
  let ?es = "[Spawn, Acquire 0, Claim 0 1, Return 0 True 1, Acquire 0, Claim 0 0, Return 0 False 2,
      Acquire 0, Claim 0 3, Return 0 True 1, Acquire 0, Claim 0 7, Return 0 True 1,
      Acquire 0, Claim 0 0]"
  let ?s = "\<lparr>glob = \<lparr>total_requests = 5, adapter_counters = [0, 0]\<rparr>, counters_lock = None,
             workers = [\<lparr>pc = Done, latencies = [1, 2, 1, 1], aggregate_latency = [1, 2, 1, 1]\<rparr>],
             claim_log = [(0, 2), (0, 1), (0, 2), (0, 1)]\<rparr>"
  have i: "initial_globals 5 2 = Inr ?g" by (simp add: initial_globals_def)
  have c: "adapter_counters ?g = replicate (nat 2) (5 div 2)" by simp
  have e: "exec False 1 ?es (start_run ?g) = Some ?s" by code_simp
  have f: "finished 1 ?s \<and> (0::int) < 1 \<and> no_crash ?s"
    by (simp add: finished_def terminated_def no_crash_def)
  have b: "(0::int) \<le> 5" and n: "(0::int) < 2" by simp_all
  from multi_claims_per_target[OF b n c e] f
  have "int (claims_of 1 (claim_log ?s)) \<le> 5 div 2 \<and>
        int (claims_of 2 (claim_log ?s)) \<le> 5 div 2 \<and>
        int (length (claim_log ?s)) = 2 * (5 div 2)"
    by blast
  with i e show ?thesis by simp
qed

text \<open>
  The equality needs both provisos. With one thread whose first request raises, the run
  is over after one claim although two were to be made; with no thread at all it is
  over after none.
\<close>

theorem multi_claims_total_counterexample:
  "exec False 1 [Spawn, Acquire 0, Claim 0 0, Raise 0]
     (start_run \<lparr>total_requests = 2, adapter_counters = replicate (nat 1) (2 div 1)\<rparr>)
     = Some \<lparr>glob = \<lparr>total_requests = 2, adapter_counters = [1]\<rparr>, counters_lock = None,
             workers = [\<lparr>pc = Crashed, latencies = [], aggregate_latency = []\<rparr>],
             claim_log = [(0, 1)]\<rparr> \<and>
   finished 1 \<lparr>glob = \<lparr>total_requests = 2, adapter_counters = [1]\<rparr>, counters_lock = None,
             workers = [\<lparr>pc = Crashed, latencies = [], aggregate_latency = []\<rparr>],
             claim_log = [(0, 1)]\<rparr> \<and>
   int (length [(0::nat, 1::int)]) \<noteq> 1 * (2 div 1) \<and>
   exec False 0 [] (start_run \<lparr>total_requests = 2, adapter_counters = replicate (nat 1) (2 div 1)\<rparr>)
     = Some \<lparr>glob = \<lparr>total_requests = 2, adapter_counters = [2]\<rparr>, counters_lock = None,
             workers = [], claim_log = []\<rparr> \<and>
   finished 0 \<lparr>glob = \<lparr>total_requests = 2, adapter_counters = [2]\<rparr>, counters_lock = None,
             workers = [], claim_log = []\<rparr> \<and>
   int (length ([] :: (nat \<times> int) list)) \<noteq> 1 * (2 div 1)"
  by (simp add: start_run_def set_worker_def invoke_adapter_claim_def remaining_adapters_def
      random_choice_def enumerate_eq_zip finished_def terminated_def)

text \<open>
  Claim C2, as the code has it. A single-adapter run with \<open>total_requests = B > 0\<close> and
  \<open>W > 0\<close> threads terminates: no execution has more than \<open>3 * B + 3 * W\<close> events, a
  state in which the driver is not yet past its loops always has an enabled event,
  and every execution extends to a complete one. The latencies the driver sees never
  number more than \<open>B\<close>, and they number exactly \<open>B\<close> when the run is complete and no
  request raised.
\<close>

theorem single_run_terminates:
  assumes "0 < B" "0 < W" "total_requests g = B" "exec True W es (start_run g) = Some s"
  shows "length es \<le> 3 * nat B + 3 * nat W \<and>
         (\<not> finished W s \<longrightarrow> (\<exists>e. step True W e s \<noteq> None)) \<and>
         (\<exists>es' s'. exec True W (es @ es') (start_run g) = Some s' \<and> finished W s') \<and>
         int (total_measurements s) \<le> B \<and>
         (finished W s \<and> no_crash s \<longrightarrow> int (total_measurements s) = B)"
proof -
  from exec_length_potential[OF assms(4)] assms(3)
  have 1: "length es \<le> 3 * nat B + 3 * nat W"
    by (simp add: potential_start remaining_def)
  from lock_inv_exec[OF assms(4)] have li: "lock_inv s" .
  have 2: "\<not> finished W s \<longrightarrow> (\<exists>e. step True W e s \<noteq> None)"
    using progress[OF li] by blast
  from can_finish[OF li, of True W] obtain es' s' where
    "exec True W es' s = Some s'" "finished W s'" by blast
  with assms(4) have "exec True W (es @ es') (start_run g) = Some s' \<and> finished W s'"
    by (simp add: exec_append)
  then have 3: "\<exists>es' s'. exec True W (es @ es') (start_run g) = Some s' \<and> finished W s'"
    by blast
  from assms(1) have b0: "0 \<le> B" by simp
  note st = single_totals[OF b0 assms(3,4)]
  from measurements_le_claims[OF assms(4)] st
  have 4: "int (total_measurements s) \<le> B" by simp
  have 5: "finished W s \<and> no_crash s \<longrightarrow> int (total_measurements s) = B"
  proof
    assume f: "finished W s \<and> no_crash s"
    with measurements_eq_claims[OF assms(4)] have "total_measurements s = length (claim_log s)"
      by simp
    with st f assms(2) show "int (total_measurements s) = B" by simp
  qed
  from 1 2 3 4 5 show ?thesis by blast
qed

theorem single_run_terminates_witness:
  "(0::int) < 2 \<and>
   exec True 2
     [Spawn, Acquire 0, Claim 0 0, Spawn, Acquire 1, Claim 1 0, Return 1 True 3,
      Return 0 False 1, Acquire 1, Claim 1 0, Acquire 0, Claim 0 0]
     (start_run \<lparr>total_requests = 2, adapter_counters = [6]\<rparr>)
     = Some \<lparr>glob = \<lparr>total_requests = 0, adapter_counters = [6]\<rparr>, counters_lock = None,
             workers = [\<lparr>pc = Done, latencies = [1], aggregate_latency = [1]\<rparr>,
                        \<lparr>pc = Done, latencies = [3], aggregate_latency = [3]\<rparr>],
             claim_log = [(0, 1), (1, 1)]\<rparr> \<and>
   int (total_measurements
          \<lparr>glob = \<lparr>total_requests = 0, adapter_counters = [6]\<rparr>, counters_lock = None,
             workers = [\<lparr>pc = Done, latencies = [1], aggregate_latency = [1]\<rparr>,
                        \<lparr>pc = Done, latencies = [3], aggregate_latency = [3]\<rparr>],
             claim_log = [(0, 1), (1, 1)]\<rparr>) = 2"
proof -
  let ?g = "\<lparr>total_requests = 2, adapter_counters = [6]\<rparr>"
  let ?es = "[Spawn, Acquire 0, Claim 0 0, Spawn, Acquire 1, Claim 1 0, Return 1 True 3,
      Return 0 False 1, Acquire 1, Claim 1 0, Acquire 0, Claim 0 0]"
  let ?s = "\<lparr>glob = \<lparr>total_requests = 0, adapter_counters = [6]\<rparr>, counters_lock = None,
             workers = [\<lparr>pc = Done, latencies = [1], aggregate_latency = [1]\<rparr>,
                        \<lparr>pc = Done, latencies = [3], aggregate_latency = [3]\<rparr>],
             claim_log = [(0, 1), (1, 1)]\<rparr>"
  have b: "(0::int) < 2" by simp
  have t: "total_requests ?g = 2" by simp
  have e: "exec True 2 ?es (start_run ?g) = Some ?s" by code_simp
  have f: "finished 2 ?s \<and> no_crash ?s"
    by (simp add: finished_def terminated_def no_crash_def)
  from single_run_terminates[OF b b t e] f have "int (total_measurements ?s) = 2" by blast
  with e show ?thesis by simp
qed

text \<open>
  A request that raises takes its claim with it: of two threads and a budget of two,
  one dies in its first request, the other serves the remaining claim, and the driver
  reports a single request.
\<close>

theorem single_run_count_counterexample:
  "exec True 2
     [Spawn, Spawn, Acquire 0, Claim 0 0, Raise 0, Acquire 1, Claim 1 0, Return 1 True 1,
      Acquire 1, Claim 1 0]
     (start_run \<lparr>total_requests = 2, adapter_counters = [6]\<rparr>)
     = Some \<lparr>glob = \<lparr>total_requests = 0, adapter_counters = [6]\<rparr>, counters_lock = None,
             workers = [\<lparr>pc = Crashed, latencies = [], aggregate_latency = []\<rparr>,
                        \<lparr>pc = Done, latencies = [1], aggregate_latency = [1]\<rparr>],
             claim_log = [(0, 1), (1, 1)]\<rparr> \<and>
   finished 2 \<lparr>glob = \<lparr>total_requests = 0, adapter_counters = [6]\<rparr>, counters_lock = None,
             workers = [\<lparr>pc = Crashed, latencies = [], aggregate_latency = []\<rparr>,
                        \<lparr>pc = Done, latencies = [1], aggregate_latency = [1]\<rparr>],
             claim_log = [(0, 1), (1, 1)]\<rparr> \<and>
   total_measurements \<lparr>glob = \<lparr>total_requests = 0, adapter_counters = [6]\<rparr>, counters_lock = None,
             workers = [\<lparr>pc = Crashed, latencies = [], aggregate_latency = []\<rparr>,
                        \<lparr>pc = Done, latencies = [1], aggregate_latency = [1]\<rparr>],
             claim_log = [(0, 1), (1, 1)]\<rparr> \<noteq> 2 \<and>
   benchmark_scenario True 2 0 4 5
     [Spawn, Spawn, Acquire 0, Claim 0 0, Raise 0, Acquire 1, Claim 1 0, Return 1 True 1,
      Acquire 1, Claim 1 0]
     \<lparr>total_requests = 2, adapter_counters = [6]\<rparr>
     = Some (\<lparr>total_requests = 0, adapter_counters = [6]\<rparr>,
             Inr \<lparr>total_latency = Add (Add (IntVal 0) (IntVal 0)) (Add (IntVal 0) (Val 1)),
                  total_requests_made = 1,
                  average_latency =
                    Div (Add (Add (IntVal 0) (IntVal 0)) (Add (IntVal 0) (Val 1))) (IntVal 1),
                  throughput = Div (IntVal 1) (Sub (Val 4) (Val 0)),
                  total_time = Sub (Val 5) (Val 0)\<rparr>)"
  by code_simp

text \<open>
  Claim C3, as the code has it. For a positive budget, a positive number of threads
  and of adapters, in either mode: the latencies in the workers' entries of
  \<^verbatim>\<open>all_latencies\<close> never number more than the claims taken, the claims never number
  more than the budget, and after a complete run in which no request raised the two
  numbers are equal.
\<close>

theorem measurements_match_claims:
  assumes "0 < B" "0 < W" "0 < N"
    and "if single_adapter then total_requests g = B
         else adapter_counters g = replicate (nat N) (B div N)"
    and "exec single_adapter W es (start_run g) = Some s"
  shows "total_measurements s \<le> length (claim_log s) \<and>
         int (length (claim_log s)) \<le> B \<and>
         (finished W s \<and> no_crash s \<longrightarrow> total_measurements s = length (claim_log s))"
proof -
  from assms(1) have b0: "0 \<le> B" by simp
  have 1: "total_measurements s \<le> length (claim_log s)"
    using assms(5) by (rule measurements_le_claims)
  have 2: "int (length (claim_log s)) \<le> B"
  proof (cases single_adapter)
    case True
    with assms(4,5) single_totals[OF b0, of g W es s] show ?thesis by simp
  next
    case False
    with assms(4,5) multi_totals[OF b0 assms(3), of g W es s]
    have "int (length (claim_log s)) \<le> N * (B div N)" by simp
    with mult_div_le_int[OF assms(3), of B] show ?thesis by simp
  qed
  have 3: "finished W s \<and> no_crash s \<longrightarrow> total_measurements s = length (claim_log s)"
    using measurements_eq_claims[OF assms(5)] by blast
  from 1 2 3 show ?thesis by blast
qed

theorem measurements_match_claims_witness:
  "(0::int) < 3 \<and> (0::int) < 2 \<and>
   exec False 2
     [Spawn, Spawn, Acquire 0, Claim 0 0, Return 0 True 2, Acquire 1, Claim 1 0,
      Return 1 True 1, Acquire 1, Claim 1 0, Acquire 0, Claim 0 0]
     (start_run \<lparr>total_requests = 3, adapter_counters = replicate (nat 2) (3 div 2)\<rparr>)
     = Some \<lparr>glob = \<lparr>total_requests = 3, adapter_counters = [0, 0]\<rparr>, counters_lock = None,
             workers = [\<lparr>pc = Done, latencies = [2], aggregate_latency = [2]\<rparr>,
                        \<lparr>pc = Done, latencies = [1], aggregate_latency = [1]\<rparr>],
             claim_log = [(0, 1), (1, 2)]\<rparr> \<and>
   total_measurements
       \<lparr>glob = \<lparr>total_requests = 3, adapter_counters = [0, 0]\<rparr>, counters_lock = None,
             workers = [\<lparr>pc = Done, latencies = [2], aggregate_latency = [2]\<rparr>,
                        \<lparr>pc = Done, latencies = [1], aggregate_latency = [1]\<rparr>],
             claim_log = [(0, 1), (1, 2)]\<rparr>
     = length [(0::nat, 1::int), (1, 2)] \<and>
   int (length [(0::nat, 1::int), (1, 2)]) \<le> 3"
proof -
  let ?g = "\<lparr>total_requests = 3, adapter_counters = replicate (nat 2) (3 div 2)\<rparr>"
  let ?es = "[Spawn, Spawn, Acquire 0, Claim 0 0, Return 0 True 2, Acquire 1, Claim 1 0,
      Return 1 True 1, Acquire 1, Claim 1 0, Acquire 0, Claim 0 0]"
  let ?s = "\<lparr>glob = \<lparr>total_requests = 3, adapter_counters = [0, 0]\<rparr>, counters_lock = None,
             workers = [\<lparr>pc = Done, latencies = [2], aggregate_latency = [2]\<rparr>,
                        \<lparr>pc = Done, latencies = [1], aggregate_latency = [1]\<rparr>],
             claim_log = [(0, 1), (1, 2)]\<rparr>"
  have b: "(0::int) < 3" and w: "(0::int) < 2" by simp_all
  have c: "if False then total_requests ?g = 3
           else adapter_counters ?g = replicate (nat 2) (3 div 2)" by simp
  have e: "exec False 2 ?es (start_run ?g) = Some ?s" by code_simp
  have f: "finished 2 ?s \<and> no_crash ?s"
    by (simp add: finished_def terminated_def no_crash_def)
  from measurements_match_claims[OF b w w c e] f
  have "total_measurements ?s = length (claim_log ?s) \<and> int (length (claim_log ?s)) \<le> 3"
    by blast
  with e show ?thesis by simp
qed

text \<open>
  In multi-adapter mode with two adapters and a budget of two, a request that raises
  leaves one latency for two claims.
\<close>

theorem measurements_match_claims_counterexample:
  "exec False 2
     [Spawn, Spawn, Acquire 0, Claim 0 0, Raise 0, Acquire 1, Claim 1 0, Return 1 True 1,
      Acquire 1, Claim 1 0]
     (start_run \<lparr>total_requests = 2, adapter_counters = replicate (nat 2) (2 div 2)\<rparr>)
     = Some \<lparr>glob = \<lparr>total_requests = 2, adapter_counters = [0, 0]\<rparr>, counters_lock = None,
             workers = [\<lparr>pc = Crashed, latencies = [], aggregate_latency = []\<rparr>,
                        \<lparr>pc = Done, latencies = [1], aggregate_latency = [1]\<rparr>],
             claim_log = [(0, 1), (1, 2)]\<rparr> \<and>
   finished 2 \<lparr>glob = \<lparr>total_requests = 2, adapter_counters = [0, 0]\<rparr>, counters_lock = None,
             workers = [\<lparr>pc = Crashed, latencies = [], aggregate_latency = []\<rparr>,
                        \<lparr>pc = Done, latencies = [1], aggregate_latency = [1]\<rparr>],
             claim_log = [(0, 1), (1, 2)]\<rparr> \<and>
   total_measurements \<lparr>glob = \<lparr>total_requests = 2, adapter_counters = [0, 0]\<rparr>, counters_lock = None,
             workers = [\<lparr>pc = Crashed, latencies = [], aggregate_latency = []\<rparr>,
                        \<lparr>pc = Done, latencies = [1], aggregate_latency = [1]\<rparr>],
             claim_log = [(0, 1), (1, 2)]\<rparr>
     \<noteq> length [(0::nat, 1::int), (1, 2)]"
  by code_simp

section \<open>Claims about the pool of work\<close>

text \<open>
  Claim C4. The pool's counts are never negative: the globals a non-negative budget
  sets up have no negative count, and the block under the lock keeps it so. The block
  lowers the sum of the counts by one when it hands out a claim and leaves it alone
  otherwise, so the sum never grows. When every count of a mode's pool is zero the
  block fails and changes nothing, and along any execution from such a state the
  globals and the history of claims stay as they are: no claim succeeds again. A
  failed claim in a state without negative counts means that every count of the pool
  is exactly zero.
\<close>

theorem pool_invariant:
  "(0 \<le> B \<and> initial_globals B N = Inr g0 \<longrightarrow> nonneg g0) \<and>
   (invoke_adapter_claim single r g = (res, g') \<longrightarrow>
      (nonneg g \<longrightarrow> nonneg g') \<and>
      remaining_sum g' = remaining_sum g - (if res = None then 0 else 1) \<and>
      (pool_zero single g \<longrightarrow> res = None \<and> g' = g) \<and>
      (nonneg g \<and> res = None \<longrightarrow> pool_zero single g')) \<and>
   (exec single W es s = Some s' \<longrightarrow>
      (nonneg (glob s) \<longrightarrow> nonneg (glob s')) \<and>
      remaining_sum (glob s') \<le> remaining_sum (glob s) \<and>
      (pool_zero single (glob s) \<longrightarrow>
         glob s' = glob s \<and> claim_log s' = claim_log s \<and> pool_zero single (glob s')))"
proof (intro conjI impI)
  assume "0 \<le> B \<and> initial_globals B N = Inr g0"
  then show "nonneg g0" using initial_globals_nonneg by blast
next
  assume "invoke_adapter_claim single r g = (res, g')" "nonneg g"
  then show "nonneg g'" using nonneg_claim by blast
next
  assume "invoke_adapter_claim single r g = (res, g')"
  then show "remaining_sum g' = remaining_sum g - (if res = None then 0 else 1)"
    by (rule remaining_sum_claim)
next
  assume c: "invoke_adapter_claim single r g = (res, g')" and z: "pool_zero single g"
  from exhausted_claim[OF pool_zero_exhausted[OF z], of r] c show "res = None" by simp
  from exhausted_claim[OF pool_zero_exhausted[OF z], of r] c show "g' = g" by simp
next
  assume c: "invoke_adapter_claim single r g = (res, g')" and n: "nonneg g \<and> res = None"
  with claim_None_same[of single r g g'] have same: "g' = g" by simp
  from c n claim_None_iff[of single r g] have "exhausted single g" by simp
  with n same show "pool_zero single g'" by (simp add: exhausted_nonneg_zero)
next
  assume "exec single W es s = Some s'" "nonneg (glob s)"
  then show "nonneg (glob s')" by (rule nonneg_exec)
next
  assume "exec single W es s = Some s'"
  then show "remaining_sum (glob s') \<le> remaining_sum (glob s)" by (rule remaining_sum_exec)
next
  assume e: "exec single W es s = Some s'" and z: "pool_zero single (glob s)"
  from exhausted_exec[OF pool_zero_exhausted[OF z] e]
  show "glob s' = glob s" "claim_log s' = claim_log s" by simp_all
  with z show "pool_zero single (glob s')" by simp
qed

theorem pool_invariant_witness:
  "(0::int) \<le> 7 \<and> initial_globals 7 3 = Inr \<lparr>total_requests = 7, adapter_counters = [2, 2, 2]\<rparr> \<and>
   nonneg \<lparr>total_requests = 7, adapter_counters = [2, 2, 2]\<rparr> \<and>
   invoke_adapter_claim False 4 \<lparr>total_requests = 0, adapter_counters = [0, 1]\<rparr>
     = (Some 2, \<lparr>total_requests = 0, adapter_counters = [0, 0]\<rparr>) \<and>
   nonneg \<lparr>total_requests = 0, adapter_counters = [0, 0]\<rparr> \<and>
   remaining_sum \<lparr>total_requests = 0, adapter_counters = [0, 0]\<rparr>
     = remaining_sum \<lparr>total_requests = 0, adapter_counters = [0, 1]\<rparr> - 1 \<and>
   pool_zero True \<lparr>total_requests = 0, adapter_counters = [0, 1]\<rparr> \<and>
   exec True 1 [Spawn, Acquire 0, Claim 0 0]
     (start_run \<lparr>total_requests = 0, adapter_counters = [0, 1]\<rparr>)
     = Some \<lparr>glob = \<lparr>total_requests = 0, adapter_counters = [0, 1]\<rparr>, counters_lock = None,
             workers = [\<lparr>pc = Done, latencies = [], aggregate_latency = []\<rparr>],
             claim_log = []\<rparr>"
proof -
  let ?g = "\<lparr>total_requests = 0, adapter_counters = [0, 1]\<rparr>"
  let ?g' = "\<lparr>total_requests = 0, adapter_counters = [0, 0]\<rparr>"
  let ?s' = "\<lparr>glob = ?g, counters_lock = None,
             workers = [\<lparr>pc = Done, latencies = [], aggregate_latency = []\<rparr>],
             claim_log = []\<rparr>"
  have i: "initial_globals 7 3 = Inr \<lparr>total_requests = 7, adapter_counters = [2, 2, 2]\<rparr>"
    by (simp add: initial_globals_def numeral_3_eq_3)
  have c: "invoke_adapter_claim False 4 ?g = (Some 2, ?g')"
    by code_simp
  have n: "nonneg ?g" by (simp add: nonneg_def)
  have z: "pool_zero True ?g" by (simp add: pool_zero_def)
  have e: "exec True 1 [Spawn, Acquire 0, Claim 0 0] (start_run ?g) = Some ?s'"
    by (simp add: start_run_def set_worker_def invoke_adapter_claim_def)
  have n0: "nonneg \<lparr>total_requests = 7, adapter_counters = [2, 2, 2]\<rparr>"
    using pool_invariant[where B = 7 and N = 3
      and ?g0.0 = "\<lparr>total_requests = 7, adapter_counters = [2, 2, 2]\<rparr>"] i
    by simp
  have n1: "nonneg ?g' \<and> remaining_sum ?g' = remaining_sum ?g - 1"
    using pool_invariant[where single = False and r = 4 and g = ?g and res = "Some 2"
      and g' = ?g'] c n
    by simp
  have "glob ?s' = glob (start_run ?g)"
    using pool_invariant[where single = True and W = 1
      and es = "[Spawn, Acquire 0, Claim 0 0]" and s = "start_run ?g" and s' = ?s'] z e
    by (simp add: start_run_def)
  from i n0 c n1 z e show ?thesis by simp
qed

text \<open>
  Claim C10. Along every execution in single-adapter mode the list
  \<^verbatim>\<open>adapter_counters\<close> stays as it was, and along every execution in multi-adapter
  mode the counter \<^verbatim>\<open>total_requests\<close> stays as it was; the same holds for the globals
  a complete run of \<^verbatim>\<open>benchmark_scenario\<close> leaves.
\<close>

theorem mode_isolation:
  "(exec True W es s = Some s' \<longrightarrow> adapter_counters (glob s') = adapter_counters (glob s)) \<and>
   (exec False W es s = Some s' \<longrightarrow> total_requests (glob s') = total_requests (glob s)) \<and>
   (benchmark_scenario True W t0 t1 t2 es g = Some (g', res) \<longrightarrow>
      adapter_counters g' = adapter_counters g) \<and>
   (benchmark_scenario False W t0 t1 t2 es g = Some (g', res) \<longrightarrow>
      total_requests g' = total_requests g)"
proof (intro conjI impI)
  assume "exec True W es s = Some s'"
  from isolation_exec[OF this] show "adapter_counters (glob s') = adapter_counters (glob s)" by simp
next
  assume "exec False W es s = Some s'"
  from isolation_exec[OF this] show "total_requests (glob s') = total_requests (glob s)" by simp
next
  assume "benchmark_scenario True W t0 t1 t2 es g = Some (g', res)"
  then obtain t where "exec True W es (start_run g) = Some t" "g' = glob t"
    by (auto simp: benchmark_scenario_def split: option.splits if_splits)
  with isolation_exec[of True W es "start_run g" t] show "adapter_counters g' = adapter_counters g"
    by (simp add: start_run_def)
next
  assume "benchmark_scenario False W t0 t1 t2 es g = Some (g', res)"
  then obtain t where "exec False W es (start_run g) = Some t" "g' = glob t"
    by (auto simp: benchmark_scenario_def split: option.splits if_splits)
  with isolation_exec[of False W es "start_run g" t] show "total_requests g' = total_requests g"
    by (simp add: start_run_def)
qed

theorem mode_isolation_witness:
  "exec True 1 [Spawn, Acquire 0, Claim 0 0, Return 0 True 1]
     (start_run \<lparr>total_requests = 2, adapter_counters = [1, 1]\<rparr>)
     = Some \<lparr>glob = \<lparr>total_requests = 1, adapter_counters = [1, 1]\<rparr>, counters_lock = None,
             workers = [\<lparr>pc = AtLoop, latencies = [1], aggregate_latency = []\<rparr>],
             claim_log = [(0, 1)]\<rparr> \<and>
   exec False 1 [Spawn, Acquire 0, Claim 0 0, Return 0 True 1]
     (start_run \<lparr>total_requests = 2, adapter_counters = [1, 1]\<rparr>)
     = Some \<lparr>glob = \<lparr>total_requests = 2, adapter_counters = [0, 1]\<rparr>, counters_lock = None,
             workers = [\<lparr>pc = AtLoop, latencies = [1], aggregate_latency = []\<rparr>],
             claim_log = [(0, 1)]\<rparr> \<and>
   benchmark_scenario True 1 0 2 3 [Spawn, Acquire 0, Claim 0 0, Return 0 True 1, Acquire 0, Claim 0 0]
     \<lparr>total_requests = 1, adapter_counters = [1, 1]\<rparr>
     = Some (\<lparr>total_requests = 0, adapter_counters = [1, 1]\<rparr>,
             Inr \<lparr>total_latency = Add (IntVal 0) (Add (IntVal 0) (Val 1)),
                  total_requests_made = 1,
                  average_latency = Div (Add (IntVal 0) (Add (IntVal 0) (Val 1))) (IntVal 1),
                  throughput = Div (IntVal 1) (Sub (Val 2) (Val 0)),
                  total_time = Sub (Val 3) (Val 0)\<rparr>) \<and>
   benchmark_scenario False 1 0 2 3 [Spawn, Acquire 0, Claim 0 0, Return 0 True 1, Acquire 0, Claim 0 0]
     \<lparr>total_requests = 1, adapter_counters = [1]\<rparr>
     = Some (\<lparr>total_requests = 1, adapter_counters = [0]\<rparr>,
             Inr \<lparr>total_latency = Add (IntVal 0) (Add (IntVal 0) (Val 1)),
                  total_requests_made = 1,
                  average_latency = Div (Add (IntVal 0) (Add (IntVal 0) (Val 1))) (IntVal 1),
                  throughput = Div (IntVal 1) (Sub (Val 2) (Val 0)),
                  total_time = Sub (Val 3) (Val 0)\<rparr>)"
proof -
  let ?g = "\<lparr>total_requests = 2, adapter_counters = [1, 1]\<rparr>"
  let ?es = "[Spawn, Acquire 0, Claim 0 0, Return 0 True 1]"
  let ?s1 = "\<lparr>glob = \<lparr>total_requests = 1, adapter_counters = [1, 1]\<rparr>, counters_lock = None,
             workers = [\<lparr>pc = AtLoop, latencies = [1], aggregate_latency = []\<rparr>],
             claim_log = [(0, 1)]\<rparr>"
  let ?s2 = "\<lparr>glob = \<lparr>total_requests = 2, adapter_counters = [0, 1]\<rparr>, counters_lock = None,
             workers = [\<lparr>pc = AtLoop, latencies = [1], aggregate_latency = []\<rparr>],
             claim_log = [(0, 1)]\<rparr>"
  let ?es' = "[Spawn, Acquire 0, Claim 0 0, Return 0 True 1, Acquire 0, Claim 0 0]"
  let ?r = "\<lparr>total_latency = Add (IntVal 0) (Add (IntVal 0) (Val 1)),
                  total_requests_made = 1,
                  average_latency = Div (Add (IntVal 0) (Add (IntVal 0) (Val 1))) (IntVal 1),
                  throughput = Div (IntVal 1) (Sub (Val 2) (Val 0)),
                  total_time = Sub (Val 3) (Val 0)\<rparr>"
  have e1: "exec True 1 ?es (start_run ?g) = Some ?s1" by code_simp
  have e2: "exec False 1 ?es (start_run ?g) = Some ?s2" by code_simp
  have b1: "benchmark_scenario True 1 0 2 3 ?es' \<lparr>total_requests = 1, adapter_counters = [1, 1]\<rparr>
     = Some (\<lparr>total_requests = 0, adapter_counters = [1, 1]\<rparr>, Inr ?r)"
    by code_simp
  have b2: "benchmark_scenario False 1 0 2 3 ?es' \<lparr>total_requests = 1, adapter_counters = [1]\<rparr>
     = Some (\<lparr>total_requests = 1, adapter_counters = [0]\<rparr>, Inr ?r)"
    by code_simp
  have "adapter_counters (glob ?s1) = adapter_counters (glob (start_run ?g))"
    using mode_isolation[where W = 1 and es = ?es and s = "start_run ?g" and s' = ?s1] e1
    by blast
  with e1 e2 b1 b2 show ?thesis by simp
qed

section \<open>Claims about degenerate configurations and failing requests\<close>

text \<open>
  Claim C5. With \<^verbatim>\<open>num_threads = 0\<close> no event is enabled at the start of a run, so no
  thread is ever started; the driver is past its loops at once, and the only
  execution, the empty one, ends in the \<^verbatim>\<open>ZeroDivisionError\<close> of the mean latency:
  the run fails without waiting for anything and without a result, and the globals
  are as they were.
\<close>

theorem zero_workers_fail:
  "step single_adapter 0 e (start_run g) = None \<and>
   finished 0 (start_run g) \<and>
   benchmark_scenario single_adapter 0 start_time now_throughput now_print es g =
     (if es = [] then Some (g, Inl ZeroDivisionError) else None)"
proof (intro conjI)
  show st: "step single_adapter 0 e (start_run g) = None" for e
    by (cases e) (simp_all add: start_run_def)
  show "finished 0 (start_run g)" by (simp add: finished_def start_run_def)
  show "benchmark_scenario single_adapter 0 start_time now_throughput now_print es g =
     (if es = [] then Some (g, Inl ZeroDivisionError) else None)"
  proof (cases es)
    case Nil
    then show ?thesis
      by (simp add: benchmark_scenario_def finished_def start_run_def report_def all_latencies_def)
  next
    case (Cons e es')
    with st[of e] show ?thesis by (simp add: benchmark_scenario_def)
  qed
qed

theorem zero_workers_fail_witness:
  "step False 0 Spawn (start_run \<lparr>total_requests = 300, adapter_counters = replicate 50 6\<rparr>) = None \<and>
   benchmark_scenario False 0 0 1 1 [] \<lparr>total_requests = 300, adapter_counters = replicate 50 6\<rparr>
     = Some (\<lparr>total_requests = 300, adapter_counters = replicate 50 6\<rparr>, Inl ZeroDivisionError) \<and>
   benchmark_scenario False 0 0 1 1 [Spawn] \<lparr>total_requests = 300, adapter_counters = replicate 50 6\<rparr>
     = None"
  using zero_workers_fail[of False Spawn "\<lparr>total_requests = 300, adapter_counters = replicate 50 6\<rparr>" 0 1 1 "[]"]
    zero_workers_fail[of False Spawn "\<lparr>total_requests = 300, adapter_counters = replicate 50 6\<rparr>" 0 1 1 "[Spawn]"]
  by simp

text \<open>
  Claim C6, as the code has it. With a budget of zero and at least one thread, no claim
  ever succeeds: the history stays empty, the globals stay as they were, no worker
  records a latency, issues a request or dies. The run always comes to its end: no
  execution has more than \<open>3 * W\<close> events, a state in which the driver is not yet past
  its loops always has an enabled event, and every execution extends to a complete
  one. In a complete run every worker has returned from its function at its first
  pass through the block, and \<^verbatim>\<open>benchmark_scenario\<close> raises \<^verbatim>\<open>ZeroDivisionError\<close> at
  the mean latency instead of reporting.
\<close>

theorem zero_budget_run:
  assumes "0 < W" "initial_globals 0 N = Inr g"
    and "exec single_adapter W es (start_run g) = Some s"
  shows "claim_log s = [] \<and> glob s = g \<and>
         list_all (\<lambda>w. latencies w = [] \<and> \<not> in_flight (pc w) \<and> pc w \<noteq> Crashed) (workers s) \<and>
         (finished W s \<longrightarrow>
            workers s \<noteq> [] \<and> list_all (\<lambda>w. pc w = Done) (workers s) \<and>
            benchmark_scenario single_adapter W start_time now_throughput now_print es g
              = Some (g, Inl ZeroDivisionError)) \<and>
         length es \<le> 3 * nat W \<and>
         (\<not> finished W s \<longrightarrow> (\<exists>e. step single_adapter W e s \<noteq> None)) \<and>
         (\<exists>es' s'. exec single_adapter W (es @ es') (start_run g) = Some s' \<and>
                   finished W s' \<and>
                   benchmark_scenario single_adapter W start_time now_throughput now_print
                     (es @ es') g = Some (g, Inl ZeroDivisionError))"
proof -
  from initial_globals_zero[OF assms(2)] have z: "pool_zero single_adapter g" .
  from zero_pool_run[OF z assms(3)]
  have 1: "claim_log s = []" and 2: "glob s = g"
    and 3: "list_all (\<lambda>w. latencies w = [] \<and> \<not> in_flight (pc w) \<and> pc w \<noteq> Crashed) (workers s)"
    by (simp_all add: list_all_iff)
  have 4: "finished W s \<longrightarrow>
            workers s \<noteq> [] \<and> list_all (\<lambda>w. pc w = Done) (workers s) \<and>
            benchmark_scenario single_adapter W start_time now_throughput now_print es g
              = Some (g, Inl ZeroDivisionError)"
    using zero_pool_finished[OF assms(1) z assms(3)] by blast
  from exec_length_potential[OF assms(3)] pool_zero_remaining[OF z]
  have 5: "length es \<le> 3 * nat W" by (simp add: potential_start)
  from lock_inv_exec[OF assms(3)] have li: "lock_inv s" .
  have 6: "\<not> finished W s \<longrightarrow> (\<exists>e. step single_adapter W e s \<noteq> None)"
    using progress[OF li] by blast
  from can_finish[OF li, of single_adapter W] obtain es' s' where
    f: "exec single_adapter W es' s = Some s'" "finished W s'" by blast
  with assms(3) have e': "exec single_adapter W (es @ es') (start_run g) = Some s'"
    by (simp add: exec_append)
  from zero_pool_finished[OF assms(1) z e' f(2)]
  have "benchmark_scenario single_adapter W start_time now_throughput now_print (es @ es') g
          = Some (g, Inl ZeroDivisionError)" by blast
  with e' f(2) have 7: "\<exists>es' s'. exec single_adapter W (es @ es') (start_run g) = Some s' \<and>
                   finished W s' \<and>
                   benchmark_scenario single_adapter W start_time now_throughput now_print
                     (es @ es') g = Some (g, Inl ZeroDivisionError)"
    by blast
  from 1 2 3 4 5 6 7 show ?thesis by blast
qed

theorem zero_budget_run_witness:
  "(0::int) < 2 \<and>
   initial_globals 0 3 = Inr \<lparr>total_requests = 0, adapter_counters = [0, 0, 0]\<rparr> \<and>
   exec False 2 [Spawn, Acquire 0, Spawn, Claim 0 4, Acquire 1, Claim 1 2]
     (start_run \<lparr>total_requests = 0, adapter_counters = [0, 0, 0]\<rparr>)
     = Some \<lparr>glob = \<lparr>total_requests = 0, adapter_counters = [0, 0, 0]\<rparr>, counters_lock = None,
             workers = [\<lparr>pc = Done, latencies = [], aggregate_latency = []\<rparr>,
                        \<lparr>pc = Done, latencies = [], aggregate_latency = []\<rparr>],
             claim_log = []\<rparr> \<and>
   benchmark_scenario False 2 0 1 2 [Spawn, Acquire 0, Spawn, Claim 0 4, Acquire 1, Claim 1 2]
     \<lparr>total_requests = 0, adapter_counters = [0, 0, 0]\<rparr>
     = Some (\<lparr>total_requests = 0, adapter_counters = [0, 0, 0]\<rparr>, Inl ZeroDivisionError)"
proof -
  let ?g = "\<lparr>total_requests = 0, adapter_counters = [0, 0, 0]\<rparr>"
  let ?es = "[Spawn, Acquire 0, Spawn, Claim 0 4, Acquire 1, Claim 1 2]"
  let ?s = "\<lparr>glob = ?g, counters_lock = None,
             workers = [\<lparr>pc = Done, latencies = [], aggregate_latency = []\<rparr>,
                        \<lparr>pc = Done, latencies = [], aggregate_latency = []\<rparr>],
             claim_log = []\<rparr>"
  have w: "(0::int) < 2" by simp
  have i: "initial_globals 0 3 = Inr ?g" by (simp add: initial_globals_def numeral_3_eq_3)
  have e: "exec False 2 ?es (start_run ?g) = Some ?s" by code_simp
  have f: "finished 2 ?s" by (simp add: finished_def terminated_def)
  from zero_budget_run[OF w i e, where start_time = 0 and now_throughput = 1 and now_print = 2] f
  have "benchmark_scenario False 2 0 1 2 ?es ?g = Some (?g, Inl ZeroDivisionError)" by blast
  with i e show ?thesis by simp
qed

text \<open>
  The run with a budget of zero and one thread does not report: it raises.
\<close>

theorem zero_budget_counterexample:
  "initial_globals 0 1 = Inr \<lparr>total_requests = 0, adapter_counters = [0]\<rparr> \<and>
   benchmark_scenario True 1 0 1 2 [Spawn, Acquire 0, Claim 0 0]
     \<lparr>total_requests = 0, adapter_counters = [0]\<rparr>
     = Some (\<lparr>total_requests = 0, adapter_counters = [0]\<rparr>, Inl ZeroDivisionError)"
  by code_simp

text \<open>
  Claim C7, as the code has it. For a request in flight in a reachable state: when
  \<^verbatim>\<open>predict\<close> returns, the step is the same whether the response reports success or
  not; the latency is appended to the worker's list, the worker is back at the top of
  its loop, and the counters and the history of claims are untouched (the claim was
  counted when it was taken). When \<^verbatim>\<open>predict\<close> raises, the counters and the history
  are untouched as well, but nothing is appended, the worker is dead, and in every
  later state it is still dead with its entry of \<^verbatim>\<open>all_latencies\<close> empty.
\<close>

theorem request_outcome_accounting:
  assumes "exec single_adapter W es (start_run g) = Some s"
    and "i < length (workers s)" "pc (workers s ! i) = InFlight a"
  shows "step single_adapter W (Return i False latency) s
           = step single_adapter W (Return i True latency) s \<and>
         (\<exists>s'. step single_adapter W (Return i ok latency) s = Some s' \<and>
               latencies (workers s' ! i) = latencies (workers s ! i) @ [latency] \<and>
               pc (workers s' ! i) = AtLoop \<and>
               glob s' = glob s \<and> claim_log s' = claim_log s) \<and>
         (\<exists>s'. step single_adapter W (Raise i) s = Some s' \<and>
               latencies (workers s' ! i) = latencies (workers s ! i) \<and>
               pc (workers s' ! i) = Crashed \<and>
               glob s' = glob s \<and> claim_log s' = claim_log s \<and>
               (\<forall>es' s''. exec single_adapter W es' s' = Some s'' \<longrightarrow>
                  i < length (workers s'') \<and> pc (workers s'' ! i) = Crashed \<and>
                  latencies (workers s'' ! i) = latencies (workers s ! i) \<and>
                  aggregate_latency (workers s'' ! i) = []))"
proof (intro conjI)
  show "step single_adapter W (Return i False latency) s
           = step single_adapter W (Return i True latency) s" by simp
next
  let ?s' = "set_worker i ((workers s ! i)\<lparr>pc := AtLoop,
                latencies := latencies (workers s ! i) @ [latency]\<rparr>) s"
  from assms(2,3) have "step single_adapter W (Return i ok latency) s = Some ?s'"
    by (simp add: Let_def)
  moreover from assms(2) have "latencies (workers ?s' ! i) = latencies (workers s ! i) @ [latency]"
    "pc (workers ?s' ! i) = AtLoop" "glob ?s' = glob s" "claim_log ?s' = claim_log s"
    by (simp_all add: set_worker_def)
  ultimately show "\<exists>s'. step single_adapter W (Return i ok latency) s = Some s' \<and>
               latencies (workers s' ! i) = latencies (workers s ! i) @ [latency] \<and>
               pc (workers s' ! i) = AtLoop \<and>
               glob s' = glob s \<and> claim_log s' = claim_log s" by blast
next
  let ?s' = "set_worker i ((workers s ! i)\<lparr>pc := Crashed\<rparr>) s"
  from assms(2,3) have st: "step single_adapter W (Raise i) s = Some ?s'" by simp
  from assms(2) have loc: "latencies (workers ?s' ! i) = latencies (workers s ! i)"
    "pc (workers ?s' ! i) = Crashed" "glob ?s' = glob s" "claim_log ?s' = claim_log s"
    "i < length (workers ?s')"
    by (simp_all add: set_worker_def)
  from acct_inv_exec[OF assms(1)] assms(2) have "published (workers s ! i)"
    by (simp add: acct_inv_def list_all_length)
  with assms(2,3) have agg: "aggregate_latency (workers ?s' ! i) = []"
    by (simp add: published_def set_worker_def)
  have later: "i < length (workers s'') \<and> pc (workers s'' ! i) = Crashed \<and>
                  latencies (workers s'' ! i) = latencies (workers s ! i) \<and>
                  aggregate_latency (workers s'' ! i) = []"
    if "exec single_adapter W es' ?s' = Some s''" for es' s''
    using crashed_exec[OF that loc(5) loc(2)] loc(1,2) agg by simp
  from st loc later show "\<exists>s'. step single_adapter W (Raise i) s = Some s' \<and>
               latencies (workers s' ! i) = latencies (workers s ! i) \<and>
               pc (workers s' ! i) = Crashed \<and>
               glob s' = glob s \<and> claim_log s' = claim_log s \<and>
               (\<forall>es' s''. exec single_adapter W es' s' = Some s'' \<longrightarrow>
                  i < length (workers s'') \<and> pc (workers s'' ! i) = Crashed \<and>
                  latencies (workers s'' ! i) = latencies (workers s ! i) \<and>
                  aggregate_latency (workers s'' ! i) = [])"
    by blast
qed

theorem request_outcome_accounting_witness:
  "exec True 1 [Spawn, Acquire 0, Claim 0 0, Return 0 True 1, Acquire 0, Claim 0 0]
     (start_run \<lparr>total_requests = 2, adapter_counters = [6]\<rparr>)
     = Some \<lparr>glob = \<lparr>total_requests = 0, adapter_counters = [6]\<rparr>, counters_lock = None,
             workers = [\<lparr>pc = InFlight 1, latencies = [1], aggregate_latency = []\<rparr>],
             claim_log = [(0, 1), (0, 1)]\<rparr> \<and>
   step True 1 (Return 0 False 2)
       \<lparr>glob = \<lparr>total_requests = 0, adapter_counters = [6]\<rparr>, counters_lock = None,
             workers = [\<lparr>pc = InFlight 1, latencies = [1], aggregate_latency = []\<rparr>],
             claim_log = [(0, 1), (0, 1)]\<rparr>
     = step True 1 (Return 0 True 2)
       \<lparr>glob = \<lparr>total_requests = 0, adapter_counters = [6]\<rparr>, counters_lock = None,
             workers = [\<lparr>pc = InFlight 1, latencies = [1], aggregate_latency = []\<rparr>],
             claim_log = [(0, 1), (0, 1)]\<rparr>"
proof -
  let ?g = "\<lparr>total_requests = 2, adapter_counters = [6]\<rparr>"
  let ?es = "[Spawn, Acquire 0, Claim 0 0, Return 0 True 1, Acquire 0, Claim 0 0]"
  let ?s = "\<lparr>glob = \<lparr>total_requests = 0, adapter_counters = [6]\<rparr>, counters_lock = None,
             workers = [\<lparr>pc = InFlight 1, latencies = [1], aggregate_latency = []\<rparr>],
             claim_log = [(0, 1), (0, 1)]\<rparr>"
  have e: "exec True 1 ?es (start_run ?g) = Some ?s" by code_simp
  have i: "0 < length (workers ?s)" and p: "pc (workers ?s ! 0) = InFlight 1" by simp_all
  from request_outcome_accounting[OF e i p, of 2]
  have "step True 1 (Return 0 False 2) ?s = step True 1 (Return 0 True 2) ?s" by blast
  with e show ?thesis by blast
qed

text \<open>
  The same worker with one latency recorded and its second request in flight: if the
  request raises, the run ends with no latency in the driver's lists and the report
  fails; if it returns, the run ends with two and reports them.
\<close>

theorem raise_not_recorded_counterexample:
  "exec True 1 [Spawn, Acquire 0, Claim 0 0, Return 0 True 1, Acquire 0, Claim 0 0, Raise 0]
     (start_run \<lparr>total_requests = 2, adapter_counters = [6]\<rparr>)
     = Some \<lparr>glob = \<lparr>total_requests = 0, adapter_counters = [6]\<rparr>, counters_lock = None,
             workers = [\<lparr>pc = Crashed, latencies = [1], aggregate_latency = []\<rparr>],
             claim_log = [(0, 1), (0, 1)]\<rparr> \<and>
   exec True 1 [Spawn, Acquire 0, Claim 0 0, Return 0 True 1, Acquire 0, Claim 0 0,
                Return 0 True 2, Acquire 0, Claim 0 0]
     (start_run \<lparr>total_requests = 2, adapter_counters = [6]\<rparr>)
     = Some \<lparr>glob = \<lparr>total_requests = 0, adapter_counters = [6]\<rparr>, counters_lock = None,
             workers = [\<lparr>pc = Done, latencies = [1, 2], aggregate_latency = [1, 2]\<rparr>],
             claim_log = [(0, 1), (0, 1)]\<rparr> \<and>
   benchmark_scenario True 1 0 4 5
     [Spawn, Acquire 0, Claim 0 0, Return 0 True 1, Acquire 0, Claim 0 0, Raise 0]
     \<lparr>total_requests = 2, adapter_counters = [6]\<rparr>
     = Some (\<lparr>total_requests = 0, adapter_counters = [6]\<rparr>, Inl ZeroDivisionError) \<and>
   benchmark_scenario True 1 0 4 5
     [Spawn, Acquire 0, Claim 0 0, Return 0 True 1, Acquire 0, Claim 0 0,
      Return 0 True 2, Acquire 0, Claim 0 0]
     \<lparr>total_requests = 2, adapter_counters = [6]\<rparr>
     = Some (\<lparr>total_requests = 0, adapter_counters = [6]\<rparr>,
             Inr \<lparr>total_latency = Add (IntVal 0) (Add (Add (IntVal 0) (Val 1)) (Val 2)),
                  total_requests_made = 2,
                  average_latency =
                    Div (Add (IntVal 0) (Add (Add (IntVal 0) (Val 1)) (Val 2))) (IntVal 2),
                  throughput = Div (IntVal 2) (Sub (Val 4) (Val 0)),
                  total_time = Sub (Val 5) (Val 0)\<rparr>)"
  by code_simp

section \<open>Claims about the report and the lock\<close>

text \<open>
  Claim C8, as the code has it. After a complete run with at least one latency in
  \<^verbatim>\<open>all_latencies\<close>, if the clock reading taken for the throughput differs from the
  start time, \<^verbatim>\<open>benchmark_scenario\<close> reports:
  a number of requests equal to the sum of the lengths of the workers' lists;
  a total latency that is the float sum of the workers' float sums, in the order of
  the lists;
  a mean latency that is the float quotient of that total by the number of requests,
  which without rounding is the sum of all latencies divided by that number;
  a throughput that is the float quotient of the number of requests by the time
  elapsed at the reading taken for the throughput, which without rounding is that
  number divided by that elapsed time;
  and a total time that is the time elapsed at a further, separate reading.
  If the throughput reading equals the start time, the throughput division raises and
  nothing is reported.
\<close>

theorem report_formulas:
  assumes "exec single_adapter W es (start_run g) = Some s" "finished W s"
    and "0 < total_measurements s"
  shows "(now_throughput = start_time \<longrightarrow>
            benchmark_scenario single_adapter W start_time now_throughput now_print es g
              = Some (glob s, Inl ZeroDivisionError)) \<and>
         (now_throughput \<noteq> start_time \<longrightarrow>
            (\<exists>r. benchmark_scenario single_adapter W start_time now_throughput now_print es g
                   = Some (glob s, Inr r) \<and>
                 total_requests_made r = int (sum_list (map length (all_latencies s))) \<and>
                 total_latency r =
                   py_sum (map (\<lambda>ls. py_sum (map Val ls)) (all_latencies s)) \<and>
                 average_latency r = Div (total_latency r) (IntVal (total_requests_made r)) \<and>
                 throughput r =
                   Div (IntVal (total_requests_made r))
                       (Sub (Val now_throughput) (Val start_time)) \<and>
                 total_time r = Sub (Val now_print) (Val start_time) \<and>
                 exact_value (average_latency r) =
                   sum_list (concat (all_latencies s)) / real_of_int (total_requests_made r) \<and>
                 exact_value (throughput r) =
                   real_of_int (total_requests_made r) / (now_throughput - start_time) \<and>
                 exact_value (total_time r) = now_print - start_time))"
proof (intro conjI impI)
  assume "now_throughput = start_time"
  with assms report_clock[of "all_latencies s" start_time now_print]
  show "benchmark_scenario single_adapter W start_time now_throughput now_print es g
              = Some (glob s, Inl ZeroDivisionError)"
    by (simp add: benchmark_scenario_def total_measurements_def)
next
  assume ne: "now_throughput \<noteq> start_time"
  from assms(3) have pos: "0 < sum_list (map length (all_latencies s))"
    by (simp add: total_measurements_def)
  let ?n = "int (sum_list (map length (all_latencies s)))"
  let ?t = "py_sum (map (\<lambda>ls. py_sum (map Val ls)) (all_latencies s))"
  let ?r = "\<lparr>total_latency = ?t, total_requests_made = ?n,
          average_latency = Div ?t (IntVal ?n),
          throughput = Div (IntVal ?n) (Sub (Val now_throughput) (Val start_time)),
          total_time = Sub (Val now_print) (Val start_time)\<rparr>"
  from assms(1,2) report_some[OF pos ne, of now_print]
  have b: "benchmark_scenario single_adapter W start_time now_throughput now_print es g
                   = Some (glob s, Inr ?r)"
    by (simp add: benchmark_scenario_def)
  have f: "total_requests_made ?r = ?n" "total_latency ?r = ?t"
    "average_latency ?r = Div (total_latency ?r) (IntVal (total_requests_made ?r))"
    "throughput ?r = Div (IntVal (total_requests_made ?r))
                       (Sub (Val now_throughput) (Val start_time))"
    "total_time ?r = Sub (Val now_print) (Val start_time)"
    by simp_all
  have x: "exact_value (average_latency ?r) =
             sum_list (concat (all_latencies s)) / real_of_int (total_requests_made ?r)"
    "exact_value (throughput ?r) =
             real_of_int (total_requests_made ?r) / (now_throughput - start_time)"
    "exact_value (total_time ?r) = now_print - start_time"
    by (simp_all add: exact_value_total del: sum_list_eq_0_iff)
  from b f x show "\<exists>r. benchmark_scenario single_adapter W start_time now_throughput now_print es g
                   = Some (glob s, Inr r) \<and>
                 total_requests_made r = int (sum_list (map length (all_latencies s))) \<and>
                 total_latency r =
                   py_sum (map (\<lambda>ls. py_sum (map Val ls)) (all_latencies s)) \<and>
                 average_latency r = Div (total_latency r) (IntVal (total_requests_made r)) \<and>
                 throughput r =
                   Div (IntVal (total_requests_made r))
                       (Sub (Val now_throughput) (Val start_time)) \<and>
                 total_time r = Sub (Val now_print) (Val start_time) \<and>
                 exact_value (average_latency r) =
                   sum_list (concat (all_latencies s)) / real_of_int (total_requests_made r) \<and>
                 exact_value (throughput r) =
                   real_of_int (total_requests_made r) / (now_throughput - start_time) \<and>
                 exact_value (total_time r) = now_print - start_time"
    by blast
qed

theorem report_formulas_witness:
  "exec False 2
     [Spawn, Spawn, Acquire 0, Claim 0 0, Return 0 True 2, Acquire 1, Claim 1 0,
      Return 1 True 1, Acquire 1, Claim 1 0, Acquire 0, Claim 0 0]
     (start_run \<lparr>total_requests = 0, adapter_counters = [1, 1]\<rparr>)
     = Some \<lparr>glob = \<lparr>total_requests = 0, adapter_counters = [0, 0]\<rparr>, counters_lock = None,
             workers = [\<lparr>pc = Done, latencies = [2], aggregate_latency = [2]\<rparr>,
                        \<lparr>pc = Done, latencies = [1], aggregate_latency = [1]\<rparr>],
             claim_log = [(0, 1), (1, 2)]\<rparr> \<and>
   (\<exists>r. benchmark_scenario False 2 10 14 15
     [Spawn, Spawn, Acquire 0, Claim 0 0, Return 0 True 2, Acquire 1, Claim 1 0,
      Return 1 True 1, Acquire 1, Claim 1 0, Acquire 0, Claim 0 0]
     \<lparr>total_requests = 0, adapter_counters = [1, 1]\<rparr>
     = Some (\<lparr>total_requests = 0, adapter_counters = [0, 0]\<rparr>, Inr r) \<and>
     total_requests_made r = 2 \<and>
     total_latency r = Add (Add (IntVal 0) (Add (IntVal 0) (Val 2))) (Add (IntVal 0) (Val 1)) \<and>
     average_latency r = Div (total_latency r) (IntVal 2) \<and>
     throughput r = Div (IntVal 2) (Sub (Val 14) (Val 10)) \<and>
     total_time r = Sub (Val 15) (Val 10) \<and>
     exact_value (average_latency r) = 3 / 2 \<and>
     exact_value (throughput r) = 2 / 4)"
proof -
  let ?g = "\<lparr>total_requests = 0, adapter_counters = [1, 1]\<rparr>"
  let ?es = "[Spawn, Spawn, Acquire 0, Claim 0 0, Return 0 True 2, Acquire 1, Claim 1 0,
      Return 1 True 1, Acquire 1, Claim 1 0, Acquire 0, Claim 0 0]"
  let ?s = "\<lparr>glob = \<lparr>total_requests = 0, adapter_counters = [0, 0]\<rparr>, counters_lock = None,
             workers = [\<lparr>pc = Done, latencies = [2], aggregate_latency = [2]\<rparr>,
                        \<lparr>pc = Done, latencies = [1], aggregate_latency = [1]\<rparr>],
             claim_log = [(0, 1), (1, 2)]\<rparr>"
  have e: "exec False 2 ?es (start_run ?g) = Some ?s" by code_simp
  have f: "finished 2 ?s" by (simp add: finished_def terminated_def)
  have m: "0 < total_measurements ?s" by (simp add: total_measurements_def all_latencies_def)
  have c: "(14::real) \<noteq> 10" by simp
  from report_formulas[OF e f m, where now_throughput = 14 and start_time = 10
      and now_print = 15] c
  obtain r where r: "benchmark_scenario False 2 10 14 15 ?es ?g = Some (glob ?s, Inr r)"
    "total_requests_made r = int (sum_list (map length (all_latencies ?s)))"
    "total_latency r = py_sum (map (\<lambda>ls. py_sum (map Val ls)) (all_latencies ?s))"
    "average_latency r = Div (total_latency r) (IntVal (total_requests_made r))"
    "throughput r = Div (IntVal (total_requests_made r)) (Sub (Val 14) (Val 10))"
    "exact_value (average_latency r) =
       sum_list (concat (all_latencies ?s)) / real_of_int (total_requests_made r)"
    "exact_value (throughput r) = real_of_int (total_requests_made r) / (14 - 10)"
    "total_time r = Sub (Val 15) (Val 10)"
    by blast
  from r(2) have n: "total_requests_made r = 2" by (simp add: all_latencies_def)
  from r(3) have t: "total_latency r
      = Add (Add (IntVal 0) (Add (IntVal 0) (Val 2))) (Add (IntVal 0) (Val 1))"
    by (simp add: all_latencies_def py_sum_def)
  from r(4) n have a: "average_latency r = Div (total_latency r) (IntVal 2)" by simp
  from r(5) n have th: "throughput r = Div (IntVal 2) (Sub (Val 14) (Val 10))" by simp
  from r(6) n have xa: "exact_value (average_latency r) = 3 / 2" by (simp add: all_latencies_def)
  from r(7) n have xt: "exact_value (throughput r) = 2 / 4" by simp
  from r(1) n t a th r(8) xa xt
  have "\<exists>r. benchmark_scenario False 2 10 14 15 ?es ?g
       = Some (\<lparr>total_requests = 0, adapter_counters = [0, 0]\<rparr>, Inr r) \<and>
     total_requests_made r = 2 \<and>
     total_latency r = Add (Add (IntVal 0) (Add (IntVal 0) (Val 2))) (Add (IntVal 0) (Val 1)) \<and>
     average_latency r = Div (total_latency r) (IntVal 2) \<and>
     throughput r = Div (IntVal 2) (Sub (Val 14) (Val 10)) \<and>
     total_time r = Sub (Val 15) (Val 10) \<and>
     exact_value (average_latency r) = 3 / 2 \<and>
     exact_value (throughput r) = 2 / 4"
    by auto
  with e show ?thesis by blast
qed

text \<open>
  The throughput is not the number of requests divided by the reported total time:
  the two come from different clock readings. With the start at 0, the reading for the
  throughput at 4 and the reading for the printed total time at 5, two requests give
  a throughput of 2 / 4 where the reported total time would give 2 / 5 (all of these
  floats and the quotient 2 / 4 are exact in binary floating point).
\<close>

theorem report_throughput_counterexample:
  "benchmark_scenario True 1 0 4 5
     [Spawn, Acquire 0, Claim 0 0, Return 0 True 1, Acquire 0, Claim 0 0,
      Return 0 True 2, Acquire 0, Claim 0 0]
     \<lparr>total_requests = 2, adapter_counters = [6]\<rparr>
     = Some (\<lparr>total_requests = 0, adapter_counters = [6]\<rparr>,
             Inr \<lparr>total_latency = Add (IntVal 0) (Add (Add (IntVal 0) (Val 1)) (Val 2)),
                  total_requests_made = 2,
                  average_latency =
                    Div (Add (IntVal 0) (Add (Add (IntVal 0) (Val 1)) (Val 2))) (IntVal 2),
                  throughput = Div (IntVal 2) (Sub (Val 4) (Val 0)),
                  total_time = Sub (Val 5) (Val 0)\<rparr>) \<and>
   Div (IntVal 2) (Sub (Val 4) (Val 0)) \<noteq> Div (IntVal 2) (Sub (Val 5) (Val 0)) \<and>
   exact_value (Div (IntVal 2) (Sub (Val 4) (Val 0))) = 1 / 2 \<and>
   exact_value (Div (IntVal 2) (Sub (Val 5) (Val 0))) = 2 / 5 \<and>
   (1 / 2 :: real) \<noteq> 2 / 5"
proof -
  have b: "benchmark_scenario True 1 0 4 5
     [Spawn, Acquire 0, Claim 0 0, Return 0 True 1, Acquire 0, Claim 0 0,
      Return 0 True 2, Acquire 0, Claim 0 0]
     \<lparr>total_requests = 2, adapter_counters = [6]\<rparr>
     = Some (\<lparr>total_requests = 0, adapter_counters = [6]\<rparr>,
             Inr \<lparr>total_latency = Add (IntVal 0) (Add (Add (IntVal 0) (Val 1)) (Val 2)),
                  total_requests_made = 2,
                  average_latency =
                    Div (Add (IntVal 0) (Add (Add (IntVal 0) (Val 1)) (Val 2))) (IntVal 2),
                  throughput = Div (IntVal 2) (Sub (Val 4) (Val 0)),
                  total_time = Sub (Val 5) (Val 0)\<rparr>)"
    by code_simp
  have d: "Div (IntVal 2) (Sub (Val 4) (Val 0)) \<noteq> Div (IntVal 2) (Sub (Val 5) (Val 0))"
    by simp
  have x: "exact_value (Div (IntVal 2) (Sub (Val 4) (Val 0))) = 1 / 2"
    "exact_value (Div (IntVal 2) (Sub (Val 5) (Val 0))) = 2 / 5"
    "(1 / 2 :: real) \<noteq> 2 / 5"
    by simp_all
  from b d x show ?thesis by blast
qed

text \<open>
  Claim C9. In every state an execution of a run reaches, the holder of
  \<^verbatim>\<open>counters_lock\<close> is a started thread that stands inside the \<^verbatim>\<open>with\<close> block, and a
  thread whose request is in flight does not hold the lock.
\<close>

theorem lock_only_in_block:
  assumes "exec single W es (start_run g) = Some s"
  shows "(\<forall>i. counters_lock s = Some i \<longrightarrow>
            i < length (workers s) \<and> pc (workers s ! i) = InLock) \<and>
         (\<forall>i < length (workers s).
            in_flight (pc (workers s ! i)) \<longrightarrow> counters_lock s \<noteq> Some i)"
proof -
  from lock_inv_exec[OF assms] have inv: "lock_inv s" .
  have a: "i < length (workers s) \<and> pc (workers s ! i) = InLock" if "counters_lock s = Some i" for i
    using inv that by (auto simp: lock_inv_def)
  have b: "counters_lock s \<noteq> Some i" if "i < length (workers s)" "in_flight (pc (workers s ! i))" for i
  proof
    assume "counters_lock s = Some i"
    with a have "pc (workers s ! i) = InLock" by simp
    with that(2) show False by simp
  qed
  from a b show ?thesis by blast
qed

theorem lock_only_in_block_witness:
  "exec False 2 [Spawn, Spawn, Acquire 1, Claim 1 0, Acquire 0]
     (start_run \<lparr>total_requests = 0, adapter_counters = [1, 1]\<rparr>)
     = Some \<lparr>glob = \<lparr>total_requests = 0, adapter_counters = [0, 1]\<rparr>, counters_lock = Some 0,
             workers = [\<lparr>pc = InLock, latencies = [], aggregate_latency = []\<rparr>,
                        \<lparr>pc = InFlight 1, latencies = [], aggregate_latency = []\<rparr>],
             claim_log = [(1, 1)]\<rparr> \<and>
   counters_lock \<lparr>glob = \<lparr>total_requests = 0, adapter_counters = [0, 1]\<rparr>, counters_lock = Some 0,
             workers = [\<lparr>pc = InLock, latencies = [], aggregate_latency = []\<rparr>,
                        \<lparr>pc = InFlight 1, latencies = [], aggregate_latency = []\<rparr>],
             claim_log = [(1, 1)]\<rparr> \<noteq> Some 1"
proof -
  let ?g = "\<lparr>total_requests = 0, adapter_counters = [1, 1]\<rparr>"
  let ?es = "[Spawn, Spawn, Acquire 1, Claim 1 0, Acquire 0]"
  let ?s = "\<lparr>glob = \<lparr>total_requests = 0, adapter_counters = [0, 1]\<rparr>, counters_lock = Some 0,
             workers = [\<lparr>pc = InLock, latencies = [], aggregate_latency = []\<rparr>,
                        \<lparr>pc = InFlight 1, latencies = [], aggregate_latency = []\<rparr>],
             claim_log = [(1, 1)]\<rparr>"
  have e: "exec False 2 ?es (start_run ?g) = Some ?s" by code_simp
  have f: "1 < length (workers ?s) \<and> in_flight (pc (workers ?s ! 1))" by simp
  from lock_only_in_block[OF e] f have "counters_lock ?s \<noteq> Some 1" by blast
  with e show ?thesis by blast
qed

end
